theory Spec2Isabelle
  imports Main "HOL-Library.Char_ord" "HOL-Library.List_Lexorder" "HOL-Library.Multiset"
    "HOL-Library.Sublist"
begin

section \<open>JavaScript values used by script.js\<close>

text \<open>
  Strings are lists of code units; every character of the model is one code unit
  (the 8-bit range), so \<open>length\<close> is the \<open>.length\<close> of the source. Numbers are
  integers (comment counters, vote counts, epoch seconds) or \<open>NaN\<close>; fractional
  values and the 2^53 precision limit of doubles are outside the model.
\<close>

datatype jsnum = Num int | NaN

datatype js_error = RangeError | TypeError

function decimal :: "nat \<Rightarrow> string" where
  "decimal n = (if n < 10 then [''0123456789'' ! n]
                else decimal (n div 10) @ [''0123456789'' ! (n mod 10)])"
  by pat_completeness auto
termination
  by (relation "measure id") auto

declare decimal.simps [simp del]

text \<open>\<open>String(x)\<close> and \<open>${x}\<close> for a number.\<close>

fun js_String :: "jsnum \<Rightarrow> string" where
  "js_String NaN = ''NaN''"
| "js_String (Num i) = (if i < 0 then CHR ''-'' # decimal (nat (- i)) else decimal (nat i))"

definition padStart :: "nat \<Rightarrow> char \<Rightarrow> string \<Rightarrow> string" where
  "padStart n c s = replicate (n - length s) c @ s"

text \<open>
  \<open>String.prototype.trim\<close>: white space and line terminators of the 8-bit range
  (TAB, LF, VT, FF, CR, SP, NBSP).
\<close>

definition is_space :: "char \<Rightarrow> bool" where
  "is_space c = (c \<in> set [CHR 0x09, CHR 0x0A, CHR 0x0B, CHR 0x0C, CHR 0x0D, CHR 0x20, CHR 0xA0])"

definition trim :: "string \<Rightarrow> string" where
  "trim s = rev (dropWhile is_space (rev (dropWhile is_space s)))"

section \<open>Dates (ECMAScript time values, UTC)\<close>

text \<open>
  A \<open>Date\<close> object holds a time value in milliseconds or is invalid (\<open>None\<close>);
  \<open>new Date(ms)\<close> is invalid beyond 8.64e15 ms. The getters follow the
  definitions of ECMA-262 (Day, TimeWithinDay, DayFromYear, YearFromTime,
  MonthFromTime, DateFromTime, WeekDay).
\<close>

type_synonym date = "int option"

definition new_Date :: "int \<Rightarrow> date" where
  "new_Date ms = (if \<bar>ms\<bar> \<le> 8640000000000000 then Some ms else None)"

definition msPerDay :: int where
  "msPerDay = 86400000"

definition Day :: "int \<Rightarrow> int" where
  "Day t = t div msPerDay"

definition DayFromYear :: "int \<Rightarrow> int" where
  "DayFromYear y = 365 * (y - 1970) + (y - 1969) div 4 - (y - 1901) div 100 + (y - 1601) div 400"

text \<open>
  YearFromTime is the largest year whose first day is not after the day of \<open>t\<close>:
  searched upwards from a year that is not after it.
\<close>

function year_search :: "int \<Rightarrow> int \<Rightarrow> int" where
  "year_search d y = (if DayFromYear (y + 1) \<le> d then year_search d (y + 1) else y)"
  by pat_completeness auto
termination
proof (relation "measure (\<lambda>(d, y). nat (d - DayFromYear (y + 1) + 1))")
  show "wf (measure (\<lambda>(d, y). nat (d - DayFromYear (y + 1) + 1)))"
    by simp
next
  fix d y :: int
  assume le: "DayFromYear (y + 1) \<le> d"
  have a: "(y + 1 - 1969) div 4 \<le> (y + 1 + 1 - 1969) div 4"
    by (rule zdiv_mono1) simp_all
  have "(y + 1 + 1 - 1901) div 100 \<le> (y + 1 - 1901 + 100) div 100"
    by (rule zdiv_mono1) simp_all
  then have b: "(y + 1 + 1 - 1901) div 100 \<le> (y + 1 - 1901) div 100 + 1"
    by simp
  have c: "(y + 1 - 1601) div 400 \<le> (y + 1 + 1 - 1601) div 400"
    by (rule zdiv_mono1) simp_all
  have "\<And>p p' q q' r r' :: int. p \<le> p' \<Longrightarrow> q' \<le> q + 1 \<Longrightarrow> r \<le> r' \<Longrightarrow>
     365 * (y + 1 - 1970) + p - q + r < 365 * (y + 1 + 1 - 1970) + p' - q' + r'"
    by simp
  from this [OF a b c] have "DayFromYear (y + 1) < DayFromYear (y + 1 + 1)"
    unfolding DayFromYear_def .
  with le show "((d, y + 1), (d, y)) \<in> measure (\<lambda>(d, y). nat (d - DayFromYear (y + 1) + 1))"
    by simp
qed

declare year_search.simps [simp del]

definition YearFromTime :: "int \<Rightarrow> int" where
  "YearFromTime t =
     year_search (Day t) (1970 + (if 0 \<le> Day t then Day t div 366 else Day t div 365))"

definition InLeapYear :: "int \<Rightarrow> int" where
  "InLeapYear t = DayFromYear (YearFromTime t + 1) - DayFromYear (YearFromTime t) - 365"

definition DayWithinYear :: "int \<Rightarrow> int" where
  "DayWithinYear t = Day t - DayFromYear (YearFromTime t)"

definition MonthFromTime :: "int \<Rightarrow> int" where
  "MonthFromTime t =
     (let d = DayWithinYear t; l = InLeapYear t in
      if d < 31 then 0 else if d < 59 + l then 1 else if d < 90 + l then 2
      else if d < 120 + l then 3 else if d < 151 + l then 4 else if d < 181 + l then 5
      else if d < 212 + l then 6 else if d < 243 + l then 7 else if d < 273 + l then 8
      else if d < 304 + l then 9 else if d < 334 + l then 10 else 11)"

definition DateFromTime :: "int \<Rightarrow> int" where
  "DateFromTime t =
     (let d = DayWithinYear t; l = InLeapYear t; m = MonthFromTime t in
      if m = 0 then d + 1 else if m = 1 then d - 30 else if m = 2 then d - 58 - l
      else if m = 3 then d - 89 - l else if m = 4 then d - 119 - l
      else if m = 5 then d - 150 - l else if m = 6 then d - 180 - l
      else if m = 7 then d - 211 - l else if m = 8 then d - 242 - l
      else if m = 9 then d - 272 - l else if m = 10 then d - 303 - l else d - 333 - l)"

definition WeekDay :: "int \<Rightarrow> int" where
  "WeekDay t = (Day t + 4) mod 7"

definition HourFromTime :: "int \<Rightarrow> int" where
  "HourFromTime t = (t div 3600000) mod 24"

definition MinFromTime :: "int \<Rightarrow> int" where
  "MinFromTime t = (t div 60000) mod 60"

definition SecFromTime :: "int \<Rightarrow> int" where
  "SecFromTime t = (t div 1000) mod 60"

definition msFromTime :: "int \<Rightarrow> int" where
  "msFromTime t = t mod 1000"

definition getter :: "(int \<Rightarrow> int) \<Rightarrow> date \<Rightarrow> jsnum" where
  "getter f d = (case d of None \<Rightarrow> NaN | Some t \<Rightarrow> Num (f t))"

definition getUTCFullYear :: "date \<Rightarrow> jsnum" where
  "getUTCFullYear = getter YearFromTime"

definition getUTCMonth :: "date \<Rightarrow> jsnum" where
  "getUTCMonth = getter MonthFromTime"

definition getUTCDate :: "date \<Rightarrow> jsnum" where
  "getUTCDate = getter DateFromTime"

definition getUTCHours :: "date \<Rightarrow> jsnum" where
  "getUTCHours = getter HourFromTime"

definition getUTCMinutes :: "date \<Rightarrow> jsnum" where
  "getUTCMinutes = getter MinFromTime"

definition getUTCSeconds :: "date \<Rightarrow> jsnum" where
  "getUTCSeconds = getter SecFromTime"

text \<open>\<open>x + 1\<close> on a number.\<close>

fun js_succ :: "jsnum \<Rightarrow> jsnum" where
  "js_succ NaN = NaN"
| "js_succ (Num i) = Num (i + 1)"

definition pad4 :: "int \<Rightarrow> string" where
  "pad4 i = padStart 4 CHR ''0'' (decimal (nat \<bar>i\<bar>))"

definition pad2 :: "int \<Rightarrow> string" where
  "pad2 i = padStart 2 CHR ''0'' (decimal (nat i))"

text \<open>\<open>Date.prototype.toUTCString\<close>, as ECMA-262 defines it.\<close>

definition toUTCString :: "date \<Rightarrow> string" where
  "toUTCString d =
     (case d of
        None \<Rightarrow> ''Invalid Date''
      | Some t \<Rightarrow>
          [''Sun'', ''Mon'', ''Tue'', ''Wed'', ''Thu'', ''Fri'', ''Sat''] ! nat (WeekDay t)
          @ '', '' @ pad2 (DateFromTime t) @ '' ''
          @ [''Jan'', ''Feb'', ''Mar'', ''Apr'', ''May'', ''Jun'',
             ''Jul'', ''Aug'', ''Sep'', ''Oct'', ''Nov'', ''Dec''] ! nat (MonthFromTime t)
          @ '' '' @ (if YearFromTime t < 0 then ''-'' else '''') @ pad4 (YearFromTime t)
          @ '' '' @ pad2 (HourFromTime t) @ '':'' @ pad2 (MinFromTime t)
          @ '':'' @ pad2 (SecFromTime t) @ '' GMT'')"

text \<open>\<open>Date.prototype.toISOString\<close>: throws RangeError on an invalid date.\<close>

definition toISOString :: "date \<Rightarrow> js_error + string" where
  "toISOString d =
     (case d of
        None \<Rightarrow> Inl RangeError
      | Some t \<Rightarrow>
          Inr ((let y = YearFromTime t in
                if 0 \<le> y \<and> y \<le> 9999 then pad4 y
                else (if y < 0 then ''-'' else ''+'') @ padStart 6 CHR ''0'' (decimal (nat \<bar>y\<bar>)))
               @ ''-'' @ pad2 (MonthFromTime t + 1) @ ''-'' @ pad2 (DateFromTime t)
               @ ''T'' @ pad2 (HourFromTime t) @ '':'' @ pad2 (MinFromTime t)
               @ '':'' @ pad2 (SecFromTime t)
               @ ''.'' @ padStart 3 CHR ''0'' (decimal (nat (msFromTime t))) @ ''Z''))"

section \<open>Date Formatter (formatDate, formatUTCAsISO8601, formatUTCAsSimple)\<close>

definition date_time_fields :: "date \<Rightarrow> string" where
  "date_time_fields dateObj =
     (let year = getUTCFullYear dateObj;
          month = padStart 2 CHR ''0'' (js_String (js_succ (getUTCMonth dateObj)));
          day = padStart 2 CHR ''0'' (js_String (getUTCDate dateObj));
          hours = padStart 2 CHR ''0'' (js_String (getUTCHours dateObj));
          mins = padStart 2 CHR ''0'' (js_String (getUTCMinutes dateObj));
          secs = padStart 2 CHR ''0'' (js_String (getUTCSeconds dateObj))
      in js_String year @ ''-'' @ month @ ''-'' @ day @ ''T'' @ hours @ '':'' @ mins @ '':'' @ secs)"

definition formatUTCAsISO8601 :: "date \<Rightarrow> string" where
  "formatUTCAsISO8601 dateObj = date_time_fields dateObj @ ''+00:00''"

definition formatUTCAsSimple :: "date \<Rightarrow> string" where
  "formatUTCAsSimple dateObj = date_time_fields dateObj @ ''Z''"

text \<open>
  \<open>formatDate\<close> reads the global \<open>selectedDateFormat\<close>, passed here as the first
  argument. The timestamp is absent (\<open>None\<close>: null or undefined) or a number;
  \<open>!utcSeconds\<close> holds for both an absent timestamp and the number 0.
\<close>

definition formatDate :: "string \<Rightarrow> int option \<Rightarrow> js_error + string" where
  "formatDate selectedDateFormat utcSeconds =
     (case utcSeconds of
        None \<Rightarrow> Inr ''''
      | Some s \<Rightarrow>
          if s = 0 then Inr ''''
          else
            (let d = new_Date (s * 1000) in
             if selectedDateFormat = ''iso8601'' then Inr (formatUTCAsISO8601 d)
             else if selectedDateFormat = ''rfc1123'' then Inr (toUTCString d)
             else if selectedDateFormat = ''utc'' then Inr (formatUTCAsSimple d)
             else toISOString d))"

section \<open>Snippets (createSnippet)\<close>

text \<open>The argument is a row's body, always a string; \<open>!text\<close> is the empty string.\<close>

definition createSnippet :: "string \<Rightarrow> string" where
  "createSnippet text =
     (if text = [] \<or> text = ''[deleted]'' then ''[deleted]''
      else (let s = trim text in if 80 < length s then take 80 s @ ''...'' else s))"

section \<open>Strings: join, split, parseInt, toLowerCase\<close>

text \<open>\<open>Array.prototype.join\<close> on an array of strings.\<close>

fun join :: "string \<Rightarrow> string list \<Rightarrow> string" where
  "join sep [] = []"
| "join sep [x] = x"
| "join sep (x # y # ys) = x @ sep @ join sep (y # ys)"

text \<open>
  \<open>String.prototype.split\<close> with a separator of one character: the empty string
  splits into one empty part.
\<close>

fun split :: "char \<Rightarrow> string \<Rightarrow> string list" where
  "split sep [] = [[]]"
| "split sep (c # cs) =
     (if c = sep then [] # split sep cs
      else (case split sep cs of [] \<Rightarrow> [[c]] | p # ps \<Rightarrow> (c # p) # ps))"

text \<open>
  \<open>parseInt(s)\<close> without a radix: leading white space is skipped, a sign is read,
  a prefix 0x or 0X selects radix 16, and the longest run of digits is the value;
  no digit gives \<open>NaN\<close>.
\<close>

definition digit_value :: "char \<Rightarrow> nat" where
  "digit_value c =
     (if CHR ''0'' \<le> c \<and> c \<le> CHR ''9'' then of_char c - 48
      else if CHR ''a'' \<le> c \<and> c \<le> CHR ''z'' then of_char c - 87
      else if CHR ''A'' \<le> c \<and> c \<le> CHR ''Z'' then of_char c - 55
      else 36)"

definition parse_digits :: "nat \<Rightarrow> string \<Rightarrow> jsnum" where
  "parse_digits radix s =
     (let ds = takeWhile (\<lambda>c. digit_value c < radix) s in
      if ds = [] then NaN
      else Num (int (foldl (\<lambda>acc c. acc * radix + digit_value c) 0 ds)))"

fun js_negate :: "jsnum \<Rightarrow> jsnum" where
  "js_negate NaN = NaN"
| "js_negate (Num i) = Num (- i)"

definition parse_unsigned :: "string \<Rightarrow> jsnum" where
  "parse_unsigned s =
     (if take 2 s = ''0x'' \<or> take 2 s = ''0X'' then parse_digits 16 (drop 2 s)
      else parse_digits 10 s)"

definition parseInt :: "string \<Rightarrow> jsnum" where
  "parseInt str =
     (case dropWhile is_space str of
        [] \<Rightarrow> NaN
      | c # cs \<Rightarrow>
          if c = CHR ''-'' then js_negate (parse_unsigned cs)
          else if c = CHR ''+'' then parse_unsigned cs
          else parse_unsigned (c # cs))"

text \<open>
  \<open>String.prototype.toLowerCase\<close> on the 8-bit range: A to Z, and the accented
  capitals 0xC0 to 0xDE except the multiplication sign 0xD7.
\<close>

definition lower_char :: "char \<Rightarrow> char" where
  "lower_char c =
     (if (CHR ''A'' \<le> c \<and> c \<le> CHR ''Z'') \<or> (CHR 0xC0 \<le> c \<and> c \<le> CHR 0xDE \<and> c \<noteq> CHR 0xD7)
      then char_of (of_char c + (32::nat)) else c)"

definition toLowerCase :: "string \<Rightarrow> string" where
  "toLowerCase s = map lower_char s"

section \<open>Comment Flattener (buildTableData)\<close>

text \<open>
  The \<open>data\<close> object of a comment node of the Reddit listing: every field may be
  absent (\<open>None\<close>). A node of the listing is a stub (\<open>kind === 'more'\<close>) or a
  comment whose \<open>replies\<close> is absent (or the empty string Reddit sends) or a
  listing with children.
\<close>

record comment_data =
  c_body :: "string option"
  c_author :: "string option"
  c_ups :: "int option"
  c_downs :: "int option"
  c_score :: "int option"
  c_created_utc :: "int option"

datatype comment = More | T1 comment_data "comment list option"

text \<open>A row of \<open>tableData\<close>.\<close>

record row =
  numbering :: string
  level :: nat
  body :: string
  author :: string
  upvotes :: int
  downvotes :: int
  score :: jsnum
  dateUtc :: "int option"

text \<open>\<open>x ? x : d\<close> and \<open>x || d\<close> on an optional string or number.\<close>

definition str_or :: "string option \<Rightarrow> string \<Rightarrow> string" where
  "str_or x d = (case x of None \<Rightarrow> d | Some s \<Rightarrow> if s = [] then d else s)"

definition num_or :: "int option \<Rightarrow> int \<Rightarrow> int" where
  "num_or x d = (case x of None \<Rightarrow> d | Some i \<Rightarrow> if i = 0 then d else i)"

text \<open>\<open>a - b\<close> on fields that may be undefined: an undefined operand gives NaN.\<close>

definition field_minus :: "int option \<Rightarrow> int option \<Rightarrow> jsnum" where
  "field_minus a b = (case (a, b) of (Some x, Some y) \<Rightarrow> Num (x - y) | _ \<Rightarrow> NaN)"

definition numberingString :: "nat list \<Rightarrow> string" where
  "numberingString numberingArray = join ''.'' (map (\<lambda>n. js_String (Num (int n))) numberingArray)"

definition make_row :: "nat list \<Rightarrow> comment_data \<Rightarrow> row" where
  "make_row numberingArray c =
     \<lparr> numbering = numberingString numberingArray,
       level = length numberingArray,
       body = str_or (c_body c) ''[deleted]'',
       author = str_or (c_author c) ''[deleted]'',
       upvotes = num_or (c_ups c) 0,
       downvotes = num_or (c_downs c) 0,
       score = (case c_score c of Some s \<Rightarrow> Num s | None \<Rightarrow> field_minus (c_ups c) (c_downs c)),
       dateUtc = (case c_created_utc c of None \<Rightarrow> None | Some t \<Rightarrow> if t = 0 then None else Some t) \<rparr>"

text \<open>
  \<open>buildTableData\<close> pushes onto the global \<open>tableData\<close>, threaded here as the last
  argument; \<open>forEach_child\<close> is the \<open>forEach\<close> loop with its counter \<open>count\<close>.
\<close>

function (sequential) buildTableData :: "comment list \<Rightarrow> nat list \<Rightarrow> row list \<Rightarrow> row list"
  and forEach_child :: "comment list \<Rightarrow> nat list \<Rightarrow> nat \<Rightarrow> row list \<Rightarrow> row list" where
  "buildTableData comments prefixArr rows =
     (if comments = [] then rows else forEach_child comments prefixArr 0 rows)"
| "forEach_child [] prefixArr cnt rows = rows"
| "forEach_child (More # rest) prefixArr cnt rows = forEach_child rest prefixArr cnt rows"
| "forEach_child (T1 c replies # rest) prefixArr cnt rows =
     (let cnt1 = cnt + 1;
          numberingArray = prefixArr @ [cnt1];
          rows1 = rows @ [make_row numberingArray c];
          rows2 = (case replies of
                     None \<Rightarrow> rows1
                   | Some children \<Rightarrow> buildTableData children numberingArray rows1)
      in forEach_child rest prefixArr cnt1 rows2)"
  by pat_completeness auto
termination
  by (relation "measure (\<lambda>x. case x of Inl (cs, _, _) \<Rightarrow> 2 * size_list size cs + 1
                                     | Inr (cs, _, _, _) \<Rightarrow> 2 * size_list size cs)") auto

text \<open>The number of comments of a listing that are not stubs, at every depth.\<close>

fun count_comments :: "comment list \<Rightarrow> nat" where
  "count_comments [] = 0"
| "count_comments (More # rest) = count_comments rest"
| "count_comments (T1 c None # rest) = Suc (count_comments rest)"
| "count_comments (T1 c (Some children) # rest) = Suc (count_comments children + count_comments rest)"

text \<open>The comments of one listing that are not stubs (one level).\<close>

definition not_stubs :: "comment list \<Rightarrow> nat" where
  "not_stubs comments = length (filter (\<lambda>c. c \<noteq> More) comments)"

definition children_of :: "comment list option \<Rightarrow> comment list" where
  "children_of replies = (case replies of None \<Rightarrow> [] | Some children \<Rightarrow> children)"

text \<open>
  The flat sequence as the specification words it: the records of a listing in
  pre-order, a comment's record first, then the records of its replies, then those of
  its later siblings; the sibling counter \<open>k\<close> counts the comments before it that are
  not stubs.
\<close>

fun preorder_rows :: "nat list \<Rightarrow> nat \<Rightarrow> comment list \<Rightarrow> row list" where
  "preorder_rows p k [] = []"
| "preorder_rows p k (More # rest) = preorder_rows p k rest"
| "preorder_rows p k (T1 c None # rest) =
     make_row (p @ [Suc k]) c # preorder_rows p (Suc k) rest"
| "preorder_rows p k (T1 c (Some children) # rest) =
     make_row (p @ [Suc k]) c # preorder_rows (p @ [Suc k]) 0 children @ preorder_rows p (Suc k) rest"


text \<open>
  The end-to-end scenario of the specification: one top-level comment with two
  replies, the second of which has a reply, and a stub as the last top-level node.
\<close>

definition plain_comment :: comment_data where
  "plain_comment =
     \<lparr> c_body = Some ''text'', c_author = Some ''alice'', c_ups = Some 3, c_downs = Some 1,
       c_score = Some 2, c_created_utc = Some 1741703950 \<rparr>"

definition scenario :: "comment list" where
  "scenario =
     [T1 plain_comment (Some [T1 plain_comment None, T1 plain_comment (Some [T1 plain_comment None])]),
      More]"

section \<open>Hierarchical Comparator (compareArray)\<close>

text \<open>
  \<open>a[i] || 0\<close> on an array of \<open>parseInt\<close> results: an index past the end
  (undefined), NaN and 0 all give 0.
\<close>

definition elem_or0 :: "jsnum list \<Rightarrow> nat \<Rightarrow> int" where
  "elem_or0 a i = (if i < length a then (case a ! i of NaN \<Rightarrow> 0 | Num v \<Rightarrow> v) else 0)"

text \<open>The \<open>for\<close> loop of \<open>compareArray\<close>, from index \<open>i\<close> on.\<close>

function compareArray_from :: "nat \<Rightarrow> jsnum list \<Rightarrow> jsnum list \<Rightarrow> int" where
  "compareArray_from i a b =
     (if i < max (length a) (length b) then
        (let valA = elem_or0 a i; valB = elem_or0 b i in
         if valA < valB then - 1
         else if valA > valB then 1
         else compareArray_from (i + 1) a b)
      else 0)"
  by pat_completeness auto
termination
  by (relation "measure (\<lambda>(i, a, b). max (length a) (length b) - i)") auto

declare compareArray_from.simps [simp del]

definition compareArray :: "jsnum list \<Rightarrow> jsnum list \<Rightarrow> int" where
  "compareArray a b = compareArray_from 0 a b"

text \<open>The comparison of two numbering strings in the callback of \<open>sortTable\<close>.\<close>

definition compare_numbering :: "string \<Rightarrow> string \<Rightarrow> int" where
  "compare_numbering s t =
     (let arrA = map parseInt (split CHR ''.'' s);
          arrB = map parseInt (split CHR ''.'' t)
      in compareArray arrA arrB)"

section \<open>Sorter (sortTable)\<close>

text \<open>
  The globals the Sorter reads and writes. \<open>renderTable\<close> redraws the table and sets
  \<open>tableBuilt\<close>; \<open>startExport\<close> empties the table and clears \<open>tableBuilt\<close> (it
  leaves \<open>sortAsc\<close> as it is); the \<open>onload\<close> handler of \<open>fetchData\<close> fills the
  table and renders it.
\<close>

record state =
  tableData :: "row list"
  tableBuilt :: bool
  sortAsc :: bool

definition initial_state :: state where
  "initial_state = \<lparr> tableData = [], tableBuilt = False, sortAsc = True \<rparr>"

definition renderTable :: "state \<Rightarrow> state" where
  "renderTable st = st\<lparr> tableBuilt := True \<rparr>"

definition startExport :: "state \<Rightarrow> state" where
  "startExport st = st\<lparr> tableData := [], tableBuilt := False \<rparr>"

definition onload :: "comment list \<Rightarrow> state \<Rightarrow> state" where
  "onload comments st = renderTable (st\<lparr> tableData := buildTableData comments [] (tableData st) \<rparr>)"

text \<open>
  \<open>column in tableData[0]\<close>: the keys of a row, and the properties every object
  inherits from \<open>Object.prototype\<close>.
\<close>

definition row_keys :: "string list" where
  "row_keys = [''numbering'', ''level'', ''body'', ''author'', ''upvotes'', ''downvotes'',
               ''score'', ''dateUtc'']"

definition object_prototype_keys :: "string list" where
  "object_prototype_keys =
     [''constructor'', ''hasOwnProperty'', ''isPrototypeOf'', ''propertyIsEnumerable'',
      ''toLocaleString'', ''toString'', ''valueOf'', ''__proto__'', ''__defineGetter__'',
      ''__defineSetter__'', ''__lookupGetter__'', ''__lookupSetter__'']"

definition has_property :: "string \<Rightarrow> row \<Rightarrow> bool" where
  "has_property column r = (column \<in> set row_keys \<or> column \<in> set object_prototype_keys)"

text \<open>Subtraction and multiplication of numbers.\<close>

fun js_minus :: "jsnum \<Rightarrow> jsnum \<Rightarrow> jsnum" where
  "js_minus (Num x) (Num y) = Num (x - y)"
| "js_minus _ _ = NaN"

fun js_times :: "jsnum \<Rightarrow> jsnum \<Rightarrow> jsnum" where
  "js_times (Num x) (Num y) = Num (x * y)"
| "js_times _ _ = NaN"

definition direction :: "bool \<Rightarrow> int" where
  "direction asc = (if asc then 1 else - 1)"

text \<open>\<open>a[column]\<close> for the numeric columns.\<close>

definition numeric_field :: "string \<Rightarrow> row \<Rightarrow> jsnum" where
  "numeric_field column r =
     (if column = ''upvotes'' then Num (upvotes r)
      else if column = ''downvotes'' then Num (downvotes r)
      else if column = ''level'' then Num (int (level r))
      else score r)"

text \<open>
  \<open>String(a[column])\<close> in the last branch, which is reached for the column author
  and for the inherited properties; the text of an inherited property is the same for
  every row (the exact text depends on the engine).
\<close>

definition field_text :: "string \<Rightarrow> row \<Rightarrow> string" where
  "field_text column r =
     (if column = ''author'' then author r
      else if column = ''__proto__'' then ''[object Object]''
      else ''function () { [native code] }'')"

text \<open>The two \<open>if\<close> statements and the \<open>return 0\<close> of the string callbacks.\<close>

definition compare_strings :: "bool \<Rightarrow> string \<Rightarrow> string \<Rightarrow> jsnum" where
  "compare_strings asc valA valB =
     (if valA < valB then (if asc then Num (- 1) else Num 1)
      else if valA > valB then (if asc then Num 1 else Num (- 1))
      else Num 0)"

text \<open>The callback that \<open>sortTable\<close> passes to \<open>sort\<close> for a column.\<close>

definition comparefn :: "string \<Rightarrow> bool \<Rightarrow> row \<Rightarrow> row \<Rightarrow> jsnum" where
  "comparefn column asc a b =
     (if column = ''numbering'' then
        Num (compare_numbering (numbering a) (numbering b) * direction asc)
      else if column = ''dateUtc'' then
        Num ((num_or (dateUtc a) 0 - num_or (dateUtc b) 0) * direction asc)
      else if column \<in> set [''upvotes'', ''downvotes'', ''level'', ''score''] then
        js_times (js_minus (numeric_field column a) (numeric_field column b)) (Num (direction asc))
      else if column = ''body'' then
        compare_strings asc (toLowerCase (body a)) (toLowerCase (body b))
      else
        compare_strings asc (toLowerCase (field_text column a)) (toLowerCase (field_text column b)))"

text \<open>
  \<open>Array.prototype.sort\<close> with a callback: a result below 0 puts the first argument
  first, a result above 0 the second, and 0 or NaN keeps their order (the sort is
  stable). For a consistent callback the result is the one stable sorted arrangement,
  computed here by insertion; for an inconsistent one the order is left to the engine and
  this is one admissible outcome. In \<open>sortTable\<close> a callback returns NaN only for the
  column score on a table that holds a NaN score; for such a table the order given here
  need not be the order of a given engine.
\<close>

definition sort_value :: "jsnum \<Rightarrow> int" where
  "sort_value v = (case v of NaN \<Rightarrow> 0 | Num i \<Rightarrow> i)"

fun insert_sorted :: "('a \<Rightarrow> 'a \<Rightarrow> jsnum) \<Rightarrow> 'a \<Rightarrow> 'a list \<Rightarrow> 'a list" where
  "insert_sorted f x [] = [x]"
| "insert_sorted f x (y # ys) =
     (if sort_value (f x y) \<le> 0 then x # y # ys else y # insert_sorted f x ys)"

definition js_sort :: "('a \<Rightarrow> 'a \<Rightarrow> jsnum) \<Rightarrow> 'a list \<Rightarrow> 'a list" where
  "js_sort f xs = foldr (insert_sorted f) xs []"

definition sortTable :: "string \<Rightarrow> state \<Rightarrow> state" where
  "sortTable column st =
     (if \<not> tableBuilt st \<or> tableData st = [] then st
      else if \<not> has_property column (hd (tableData st)) \<and> column \<noteq> ''body'' then st
      else renderTable
             (st\<lparr> tableData := js_sort (comparefn column (sortAsc st)) (tableData st),
                  sortAsc := \<not> sortAsc st \<rparr>))"

section \<open>Notions used to state the properties of the Comparator and the Sorter\<close>

text \<open>
  The first \<open>n\<close> segments of an array as the loop of \<open>compareArray\<close> reads them,
  a missing segment as 0; lists of integers are ordered lexicographically.
\<close>

definition padded :: "nat \<Rightarrow> jsnum list \<Rightarrow> int list" where
  "padded n a = map (elem_or0 a) [0..<n]"

text \<open>The sign of the lexicographic comparison of two lists of integers.\<close>

definition lex_sign :: "int list \<Rightarrow> int list \<Rightarrow> int" where
  "lex_sign xs ys = (if xs < ys then - 1 else if ys < xs then 1 else 0)"

text \<open>
  The comparison rule of a column: the value of its callback for ascending order
  (below 0, 0, above 0).
\<close>

definition column_order :: "string \<Rightarrow> row \<Rightarrow> row \<Rightarrow> int" where
  "column_order column a b = sort_value (comparefn column True a b)"

text \<open>The guard of \<open>sortTable\<close>: the table is rendered and not empty, and the column is valid.\<close>

definition sortable :: "string \<Rightarrow> state \<Rightarrow> bool" where
  "sortable column st =
     (tableBuilt st \<and> tableData st \<noteq> []
      \<and> (has_property column (hd (tableData st)) \<or> column = ''body''))"

text \<open>The globals after one export of a listing, on a freshly loaded page.\<close>

definition exported :: "comment list \<Rightarrow> state" where
  "exported comments = onload comments (startExport initial_state)"

section \<open>Hierarchy Rebuilder (buildNodeDictionary, buildHierarchyFromDict, computeCounts)\<close>

text \<open>
  A node object of the dictionary. Its \<open>children\<close> array holds references to other
  node objects of the dictionary; a reference is modelled by the key under which the
  object is stored. The fields \<open>children\<close> and \<open>count\<close> do not exist before
  \<open>buildHierarchyFromDict\<close> sets them (here: empty and 0 until then).
\<close>

record hnode =
  n_id :: string
  n_parentId :: "string option"
  n_score :: jsnum
  n_bodySnippet :: string
  n_fullNumbering :: string
  n_children :: "string list"
  n_count :: nat

text \<open>
  The own properties of the dictionary object, as the list in the order in which
  \<open>Object.values\<close> enumerates them: the keys that are array indices (canonical
  decimal numbers below 2^32 - 1) in ascending numeric order, then the other keys in the
  order of their creation. Assigning to an existing key keeps its place.
\<close>

type_synonym dict = "(string \<times> hnode) list"

definition index_value :: "string \<Rightarrow> int" where
  "index_value k = foldl (\<lambda>acc c. acc * 10 + int (digit_value c)) 0 k"

definition is_array_index :: "string \<Rightarrow> bool" where
  "is_array_index k =
     (k \<noteq> [] \<and> list_all (\<lambda>c. digit_value c < 10) k \<and> (k = ''0'' \<or> hd k \<noteq> CHR ''0'')
      \<and> index_value k < 4294967295)"

fun insert_index :: "string \<Rightarrow> hnode \<Rightarrow> dict \<Rightarrow> dict" where
  "insert_index k v [] = [(k, v)]"
| "insert_index k v ((k', v') # d) =
     (if is_array_index k' \<and> index_value k' < index_value k then (k', v') # insert_index k v d
      else (k, v) # (k', v') # d)"

text \<open>Creating or overwriting the own property \<open>k\<close>.\<close>

definition set_own :: "string \<Rightarrow> hnode \<Rightarrow> dict \<Rightarrow> dict" where
  "set_own k v d =
     (if k \<in> fst ` set d then map (\<lambda>(k', v'). if k' = k then (k', v) else (k', v')) d
      else if is_array_index k then insert_index k v d
      else d @ [(k, v)])"

text \<open>
  The dictionary object: its own properties and its prototype. It is created as
  \<open>{}\<close>, so its prototype is \<open>Object.prototype\<close> (here \<open>None\<close>) until an
  assignment to the key \<open>__proto__\<close> makes the assigned node object the prototype
  (\<open>Some\<close>); the prototype of that node object is \<open>Object.prototype\<close>.
\<close>

record dictionary =
  own_properties :: dict
  prototype :: "hnode option"

text \<open>
  \<open>dict[k] = v\<close>. The key \<open>__proto__\<close> is the accessor property inherited from
  \<open>Object.prototype\<close>: its setter replaces the prototype of the dictionary and
  creates no own property. Every other key becomes, or stays, an own property (the
  properties of \<open>Object.prototype\<close> and of a node object are writable data
  properties, which an assignment shadows).
\<close>

definition dict_set :: "string \<Rightarrow> hnode \<Rightarrow> dictionary \<Rightarrow> dictionary" where
  "dict_set k v d =
     (if k = ''__proto__'' then d\<lparr> prototype := Some v \<rparr>
      else d\<lparr> own_properties := set_own k v (own_properties d) \<rparr>)"

text \<open>The \<open>parentId\<close> that \<open>buildNodeDictionary\<close> derives from a numbering.\<close>

definition parent_of :: "string \<Rightarrow> string option" where
  "parent_of fullNum =
     (let parts = split CHR ''.'' fullNum in
      if 1 < length parts then Some (join ''.'' (butlast parts)) else None)"

definition node_of_row :: "row \<Rightarrow> hnode" where
  "node_of_row r =
     \<lparr> n_id = numbering r, n_parentId = parent_of (numbering r), n_score = score r,
       n_bodySnippet = createSnippet (body r), n_fullNumbering = numbering r,
       n_children = [], n_count = 0 \<rparr>"

definition buildNodeDictionary :: "row list \<Rightarrow> dictionary" where
  "buildNodeDictionary data =
     foldl (\<lambda>dict r. dict_set (numbering r) (node_of_row r) dict)
       \<lparr> own_properties = [], prototype = None \<rparr> data"

text \<open>\<open>dict[p].children.push(node)\<close>, for the node stored under the key \<open>k\<close>.\<close>

definition push_child :: "string \<Rightarrow> string \<Rightarrow> dict \<Rightarrow> dict" where
  "push_child p k d =
     map (\<lambda>(k', v). if k' = p then (k', v\<lparr> n_children := n_children v @ [k] \<rparr>) else (k', v)) d"

text \<open>
  \<open>dict[k]\<close> for a key that is not an own property of the dictionary: whether the
  value found along the prototype chain is truthy. A node object that was made the
  prototype has the five properties of the object literal in \<open>buildNodeDictionary\<close>
  (\<open>Object.values\<close> does not enumerate it, so it never gets \<open>children\<close> or
  \<open>count\<close>). \<open>Object.prototype\<close> has twelve properties: eleven functions, and
  \<open>__proto__\<close>, which reads as the prototype of the dictionary, an object. Every
  other key gives \<open>undefined\<close>.
\<close>

definition truthy_num :: "jsnum \<Rightarrow> bool" where
  "truthy_num x = (case x of NaN \<Rightarrow> False | Num i \<Rightarrow> i \<noteq> 0)"

definition inherited_truthy :: "hnode option \<Rightarrow> string \<Rightarrow> bool" where
  "inherited_truthy pr k =
     (case pr of
        None \<Rightarrow> k \<in> set object_prototype_keys
      | Some n \<Rightarrow>
          if k = ''id'' then n_id n \<noteq> []
          else if k = ''parentId'' then (case n_parentId n of None \<Rightarrow> False | Some q \<Rightarrow> q \<noteq> [])
          else if k = ''score'' then truthy_num (n_score n)
          else if k = ''bodySnippet'' then n_bodySnippet n \<noteq> []
          else if k = ''fullNumbering'' then n_fullNumbering n \<noteq> []
          else k \<in> set object_prototype_keys)"

text \<open>
  The body of the second loop of \<open>buildHierarchyFromDict\<close>, on the children of the
  root and the own properties of the dictionary, for a dictionary with the prototype
  \<open>pr\<close>. \<open>!node.parentId\<close> holds for null and for the empty string.
  \<open>dict[node.parentId]\<close> is a node object when the parent id is an own property.
  When it is an inherited value that is truthy (a function, a string, a number, or an
  object without \<open>children\<close>), \<open>.children\<close> is undefined and \<open>.push\<close>
  throws a TypeError. When it is undefined or falsy, the node is skipped.
\<close>

definition link_node ::
  "hnode option \<Rightarrow> string list \<times> dict \<Rightarrow> string \<times> hnode \<Rightarrow> js_error + string list \<times> dict" where
  "link_node pr st kv =
     (case st of (rc, d) \<Rightarrow>
        (case n_parentId (snd kv) of
           None \<Rightarrow> Inr (rc @ [fst kv], d)
         | Some pid \<Rightarrow>
             if pid = [] then Inr (rc @ [fst kv], d)
             else if pid \<in> fst ` set d then Inr (rc, push_child pid (fst kv) d)
             else if inherited_truthy pr pid then Inl TypeError
             else Inr (rc, d)))"

text \<open>The second loop: an exception thrown by its body ends it.\<close>

fun forEach_link ::
  "hnode option \<Rightarrow> string list \<times> dict \<Rightarrow> (string \<times> hnode) list \<Rightarrow> js_error + string list \<times> dict" where
  "forEach_link pr st [] = Inr st"
| "forEach_link pr st (kv # kvs) =
     (case link_node pr st kv of
        Inl e \<Rightarrow> Inl e
      | Inr st' \<Rightarrow> forEach_link pr st' kvs)"

text \<open>
  The object graph below the root, read as a value: a node (the root has none of the
  node fields), its children and its count. \<open>tree_of\<close> follows the references from a
  key; its first argument bounds the depth, and \<open>None\<close> means that the bound was hit
  or a reference led nowhere.
\<close>

datatype htree = HTree (t_node: "hnode option") (t_children: "htree list") (t_count: nat)

fun tree_of :: "nat \<Rightarrow> dict \<Rightarrow> string \<Rightarrow> htree option" where
  "tree_of 0 d k = None"
| "tree_of (Suc n) d k =
     (case map_of d k of
        None \<Rightarrow> None
      | Some v \<Rightarrow>
          (case those (map (tree_of n d) (n_children v)) of
             None \<Rightarrow> None
           | Some ts \<Rightarrow> Some (HTree (Some v) ts (n_count v))))"

text \<open>
  \<open>computeCounts\<close> sets \<open>node.count\<close> in the whole subtree and returns that count;
  here it returns the subtree with its counts set, and the number returned by the
  source is the count of the result.
\<close>

fun computeCounts :: "htree \<Rightarrow> htree" where
  "computeCounts (HTree v ts c) =
     (if ts = [] then HTree v ts 1
      else (let ts' = map computeCounts ts in HTree v ts' (sum_list (map t_count ts'))))"

text \<open>The largest number of segments of a key: no node lies deeper than that.\<close>

definition depth_bound :: "dict \<Rightarrow> nat" where
  "depth_bound d = foldr (\<lambda>kv m. max (length (split CHR ''.'' (fst kv))) m) d 0"

text \<open>
  \<open>buildHierarchyFromDict\<close>: the root object with no children and count 0, the first
  loop (children empty, count 1), the second loop (linking), and \<open>computeCounts\<close> on
  the root. The result is \<open>Some (Inl e)\<close> when the function throws, \<open>Some (Inr t)\<close>
  when it returns the root \<open>t\<close>, and \<open>None\<close> when reading the object graph hits
  the depth bound.
\<close>

definition buildHierarchyFromDict :: "dictionary \<Rightarrow> (js_error + htree) option" where
  "buildHierarchyFromDict dict =
     (let d1 = map (\<lambda>(k, v). (k, v\<lparr> n_children := [], n_count := 1 \<rparr>)) (own_properties dict)
      in case forEach_link (prototype dict) ([], d1) d1 of
           Inl e \<Rightarrow> Some (Inl e)
         | Inr linked \<Rightarrow>
             (case those (map (tree_of (Suc (depth_bound (snd linked))) (snd linked)) (fst linked)) of
                None \<Rightarrow> None
              | Some ts \<Rightarrow> Some (Inr (computeCounts (HTree None ts 0)))))"

text \<open>The first two steps of \<open>initVisualization\<close>.\<close>

definition rebuild :: "row list \<Rightarrow> (js_error + htree) option" where
  "rebuild data = buildHierarchyFromDict (buildNodeDictionary data)"

section \<open>Notions used to state the properties of the Hierarchy Rebuilder\<close>

text \<open>The nodes of a tree (the tree itself first), and the id of a node (the root has none).\<close>

fun subtrees :: "htree \<Rightarrow> htree list" where
  "subtrees (HTree v ts c) = HTree v ts c # concat (map subtrees ts)"

definition t_id :: "htree \<Rightarrow> string option" where
  "t_id t = map_option n_id (t_node t)"

text \<open>The ids of the Hierarchy Nodes of a tree, in pre-order.\<close>

fun node_ids :: "htree \<Rightarrow> string list" where
  "node_ids (HTree v ts c) = (case v of None \<Rightarrow> [] | Some n \<Rightarrow> [n_id n]) @ concat (map node_ids ts)"

text \<open>The number of nodes without children, and the number of nodes, of a subtree.\<close>

fun leaves :: "htree \<Rightarrow> nat" where
  "leaves (HTree v ts c) = (if ts = [] then 1 else sum_list (map leaves ts))"

fun tree_size :: "htree \<Rightarrow> nat" where
  "tree_size (HTree v ts c) = Suc (sum_list (map tree_size ts))"

text \<open>A numbering as the data model has it: dot-separated, non-empty runs of decimal digits.\<close>

definition numbering_ok :: "string \<Rightarrow> bool" where
  "numbering_ok s =
     list_all (\<lambda>p. p \<noteq> [] \<and> list_all (\<lambda>c. digit_value c < 10) p) (split CHR ''.'' s)"

abbreviation seg :: "string \<Rightarrow> string list" where
  "seg x \<equiv> split CHR ''.'' x"

text \<open>
  Where the second loop attaches the node of a key: to the node of its parent id, or
  to the root (\<open>None\<close>) when the parent id is null or empty.
\<close>

definition attach_to :: "string \<Rightarrow> string option" where
  "attach_to k = (case parent_of k of None \<Rightarrow> None | Some p \<Rightarrow> if p = [] then None else Some p)"

definition add_children :: "string list \<Rightarrow> dict \<Rightarrow> dict" where
  "add_children cs d =
     map (\<lambda>kv. (fst kv, (snd kv)\<lparr> n_children := n_children (snd kv) @ filter (\<lambda>c. attach_to c = Some (fst kv)) cs \<rparr>)) d"

text \<open>The dictionary and the children of the root after the two loops, in closed form.\<close>

definition linked_dict :: "dict \<Rightarrow> dict" where
  "linked_dict dict =
     map (\<lambda>kv. (fst kv, (snd kv)\<lparr> n_children := filter (\<lambda>c. attach_to c = Some (fst kv)) (map fst dict),
                                  n_count := 1 \<rparr>)) dict"

definition root_children :: "dict \<Rightarrow> string list" where
  "root_children dict = filter (\<lambda>c. attach_to c = None) (map fst dict)"

definition root_trees :: "dict \<Rightarrow> htree list option" where
  "root_trees dict =
     those (map (tree_of (Suc (depth_bound (linked_dict dict))) (linked_dict dict)) (root_children dict))"

text \<open>Invariants of the dictionary as built, and as linked.\<close>

definition dict_ok :: "dict \<Rightarrow> bool" where
  "dict_ok d = (distinct (map fst d)
     \<and> list_all (\<lambda>kv. n_id (snd kv) = fst kv \<and> n_parentId (snd kv) = parent_of (fst kv)) d)"

definition heap_ok :: "dict \<Rightarrow> bool" where
  "heap_ok d =
     (distinct (map fst d)
      \<and> list_all (\<lambda>kv. n_id (snd kv) = fst kv
            \<and> n_children (snd kv) = filter (\<lambda>c. attach_to c = Some (fst kv)) (map fst d)) d)"

text \<open>The numbering arrays of the records of \<open>preorder_rows\<close>.\<close>

fun preorder_paths :: "nat list \<Rightarrow> nat \<Rightarrow> comment list \<Rightarrow> nat list list" where
  "preorder_paths p k [] = []"
| "preorder_paths p k (More # rest) = preorder_paths p k rest"
| "preorder_paths p k (T1 c None # rest) = (p @ [Suc k]) # preorder_paths p (Suc k) rest"
| "preorder_paths p k (T1 c (Some children) # rest) =
     (p @ [Suc k]) # preorder_paths (p @ [Suc k]) 0 children @ preorder_paths p (Suc k) rest"

section \<open>Properties of the Date Formatter\<close>

lemma date_time_fields_example:
  "date_time_fields (new_Date (1741703950 * 1000)) = ''2025-03-11T14:39:10''"
  by code_simp

lemma date_time_fields_example2:
  "date_time_fields (new_Date (1741702750 * 1000)) = ''2025-03-11T14:19:10''"
  by code_simp

text \<open>
  C8, as stated, fails: 1741703950 seconds are 20158 days, 14 hours, 39 minutes and
  10 seconds after the epoch, so the formatted minute is 39 and not 19.
\<close>

theorem formatDate_claimed_example_wrong:
  "formatDate ''iso8601'' (Some 1741703950) \<noteq> Inr ''2025-03-11T14:19:10+00:00''
   \<and> formatDate ''utc'' (Some 1741703950) \<noteq> Inr ''2025-03-11T14:19:10Z''"
  using date_time_fields_example
  by (simp add: formatDate_def formatUTCAsISO8601_def formatUTCAsSimple_def)

text \<open>
  C8, amended. Epoch seconds 1741703950 are formatted as 2025-03-11T14:39:10+00:00
  under the selector iso8601 and as 2025-03-11T14:39:10Z under the selector utc (the
  strings of the claim, 2025-03-11T14:19:10+00:00 and 2025-03-11T14:19:10Z, are those of
  epoch seconds 1741702750); an absent timestamp gives the empty string under every
  selector.
\<close>

theorem formatDate_examples:
  "formatDate ''iso8601'' (Some 1741703950) = Inr ''2025-03-11T14:39:10+00:00''
   \<and> formatDate ''utc'' (Some 1741703950) = Inr ''2025-03-11T14:39:10Z''
   \<and> formatDate ''iso8601'' (Some 1741702750) = Inr ''2025-03-11T14:19:10+00:00''
   \<and> formatDate ''utc'' (Some 1741702750) = Inr ''2025-03-11T14:19:10Z''
   \<and> (\<forall>fmt. formatDate fmt None = Inr '''')"
  using date_time_fields_example date_time_fields_example2
  by (simp add: formatDate_def formatUTCAsISO8601_def formatUTCAsSimple_def)

text \<open>
  C10. The timestamp 0 gives the empty string under every selector, exactly as an
  absent timestamp does.
\<close>

theorem formatDate_zero:
  "formatDate fmt (Some 0) = Inr '''' \<and> formatDate fmt (Some 0) = formatDate fmt None"
  by (simp add: formatDate_def)

section \<open>Properties of createSnippet\<close>

lemma trim_example: "trim '' hi '' = ''hi''"
  by (simp add: trim_def is_space_def)

text \<open>
  C9, as stated, fails: a body of four characters with a leading and a trailing space
  does not exceed 80 characters, and its snippet is not the body itself.
\<close>

theorem createSnippet_not_body:
  "length '' hi '' \<le> 80 \<and> createSnippet '' hi '' = ''hi'' \<and> createSnippet '' hi '' \<noteq> '' hi ''"
  by (simp add: createSnippet_def trim_example)

text \<open>
  C9, amended. The snippet is computed from the body with leading and trailing white
  space removed: it is that trimmed body cut to 80 characters and followed by the
  ellipsis marker when the trimmed body exceeds 80 characters, and the trimmed body
  itself otherwise; the sentinel [deleted] passes through unchanged (and an empty body
  gives the sentinel). In particular, for a non-empty body without leading or trailing
  white space the snippet is the body cut to 80 characters plus the marker when the
  body exceeds 80 characters, and the body itself otherwise.
\<close>

theorem createSnippet_trimmed:
  "(b \<noteq> [] \<longrightarrow>
      createSnippet b =
        (if 80 < length (trim b) then take 80 (trim b) @ ''...'' else trim b))
   \<and> (b \<noteq> [] \<and> trim b = b \<longrightarrow>
      createSnippet b = (if 80 < length b then take 80 b @ ''...'' else b))
   \<and> createSnippet ''[deleted]'' = ''[deleted]''
   \<and> createSnippet [] = ''[deleted]''"
proof -
  have d: "trim ''[deleted]'' = ''[deleted]''"
    by (simp add: trim_def is_space_def)
  have 1: "b \<noteq> [] \<longrightarrow>
      createSnippet b =
        (if 80 < length (trim b) then take 80 (trim b) @ ''...'' else trim b)"
  proof (cases "b = ''[deleted]''")
    case True
    then show ?thesis
      using d by (simp add: createSnippet_def)
  next
    case False
    then show ?thesis
      by (simp add: createSnippet_def Let_def)
  qed
  have 2: "b \<noteq> [] \<and> trim b = b \<longrightarrow>
      createSnippet b = (if 80 < length b then take 80 b @ ''...'' else b)"
    using 1 by simp
  have 3: "createSnippet ''[deleted]'' = ''[deleted]''"
    by (simp add: createSnippet_def)
  have 4: "createSnippet [] = ''[deleted]''"
    by (simp add: createSnippet_def)
  show ?thesis
    using 1 2 3 4 by blast
qed

theorem createSnippet_trimmed_witness:
  "createSnippet '' hi '' = ''hi'' \<and> createSnippet ''hi'' = ''hi''"
  using createSnippet_trimmed [of "'' hi ''"] createSnippet_trimmed [of "''hi''"]
  by (simp add: trim_def is_space_def)

section \<open>Properties of the Comment Flattener\<close>

lemma flatten_preorder:
  "buildTableData comments p rows = rows @ preorder_rows p 0 comments"
  "forEach_child comments p k rows = rows @ preorder_rows p k comments"
proof (induction comments p rows and comments p k rows rule: buildTableData_forEach_child.induct)
  case (1 comments prefixArr rows)
  then show ?case by (cases comments) simp_all
next
  case (2 prefixArr cnt rows)
  then show ?case by simp
next
  case (3 rest prefixArr cnt rows)
  then show ?case by simp
next
  case (4 c replies rest prefixArr cnt rows)
  show ?case
  proof (cases replies)
    case None
    then show ?thesis
      using "4.IH"(2) [OF refl refl refl refl] by (simp add: Let_def)
  next
    case (Some children)
    then show ?thesis
      using "4.IH"(1) [OF refl refl refl Some] "4.IH"(2) [OF refl refl refl refl]
      by (simp add: Let_def)
  qed
qed

section \<open>Properties of the string functions\<close>

lemma digit_cases: "n < 10 \<Longrightarrow> n \<in> {0, 1, 2, 3, 4, 5, 6, 7, 8, 9 :: nat}"
  by auto

lemma digit_char_props:
  assumes "n < 10"
  shows "digit_value (''0123456789'' ! n) = n"
    and "\<not> is_space (''0123456789'' ! n)"
    and "''0123456789'' ! n \<noteq> CHR ''.''"
    and "''0123456789'' ! n \<noteq> CHR ''-''"
    and "''0123456789'' ! n \<noteq> CHR ''+''"
    and "''0123456789'' ! n \<noteq> CHR ''x''"
    and "''0123456789'' ! n \<noteq> CHR ''X''"
  using digit_cases [OF assms]
  by (auto simp: digit_value_def is_space_def)

lemma decimal_small: "n < 10 \<Longrightarrow> decimal n = [''0123456789'' ! n]"
  by (simp add: decimal.simps)

lemma decimal_snoc: "\<not> n < 10 \<Longrightarrow> decimal n = decimal (n div 10) @ [''0123456789'' ! (n mod 10)]"
  by (subst decimal.simps) simp

lemma decimal_nonempty: "decimal n \<noteq> []"
  by (subst decimal.simps) simp

lemma decimal_all_digits: "c \<in> set (decimal n) \<Longrightarrow> \<exists>k<10. c = ''0123456789'' ! k"
proof (induction n rule: decimal.induct)
  case (1 n)
  show ?case
  proof (cases "n < 10")
    case True
    with "1.prems" show ?thesis
      by (auto simp: decimal_small)
  next
    case False
    with "1.prems" have "c \<in> set (decimal (n div 10)) \<or> c = ''0123456789'' ! (n mod 10)"
      by (auto simp: decimal_snoc)
    then show ?thesis
    proof
      assume "c \<in> set (decimal (n div 10))"
      with "1.IH" False show ?thesis by blast
    next
      assume "c = ''0123456789'' ! (n mod 10)"
      moreover have "n mod 10 < 10" by simp
      ultimately show ?thesis by blast
    qed
  qed
qed

lemma decimal_no_dot: "CHR ''.'' \<notin> set (decimal n)"
proof
  assume "CHR ''.'' \<in> set (decimal n)"
  then obtain k where "k < 10" "CHR ''.'' = ''0123456789'' ! k"
    using decimal_all_digits by blast
  then show False
    using digit_char_props(3) [of k] by simp
qed

lemma decimal_takeWhile: "takeWhile (\<lambda>c. digit_value c < 10) (decimal n) = decimal n"
proof -
  have "\<forall>c\<in>set (decimal n). digit_value c < 10"
    using decimal_all_digits digit_char_props(1) by metis
  then show ?thesis by (simp add: takeWhile_eq_all_conv)
qed

lemma decimal_value: "foldl (\<lambda>acc c. acc * 10 + digit_value c) 0 (decimal n) = n"
proof (induction n rule: decimal.induct)
  case (1 n)
  show ?case
  proof (cases "n < 10")
    case True
    then show ?thesis by (simp add: decimal_small digit_char_props(1))
  next
    case False
    then show ?thesis
      using "1.IH" by (simp add: decimal_snoc digit_char_props(1))
  qed
qed

lemma decimal_hd: "\<exists>k<10. hd (decimal n) = ''0123456789'' ! k"
  using decimal_all_digits [of "hd (decimal n)" n] decimal_nonempty [of n] by simp

lemma decimal_take2: "take 2 (decimal n) \<noteq> ''0x'' \<and> take 2 (decimal n) \<noteq> ''0X''"
proof (cases "decimal n")
  case Nil
  then show ?thesis by simp
next
  case (Cons a as)
  show ?thesis
  proof (cases as)
    case Nil
    with Cons show ?thesis by simp
  next
    case (Cons b bs)
    with \<open>decimal n = a # as\<close> have "b \<in> set (decimal n)" by simp
    then obtain k where "k < 10" "b = ''0123456789'' ! k"
      using decimal_all_digits by blast
    then have "b \<noteq> CHR ''x''" "b \<noteq> CHR ''X''"
      using digit_char_props by auto
    with Cons \<open>decimal n = a # as\<close> show ?thesis by simp
  qed
qed

lemma parse_unsigned_decimal:
  "take 2 s \<noteq> ''0x'' \<Longrightarrow> take 2 s \<noteq> ''0X'' \<Longrightarrow> parse_unsigned s = parse_digits 10 s"
  by (simp add: parse_unsigned_def)

lemma parseInt_decimal: "parseInt (decimal n) = Num (int n)"
proof -
  obtain a as where d: "decimal n = a # as"
    using decimal_nonempty [of n] by (cases "decimal n") auto
  then have "a \<in> set (decimal n)" by simp
  then obtain k where k: "k < 10" "a = ''0123456789'' ! k"
    using decimal_all_digits by blast
  have a: "\<not> is_space a" "a \<noteq> CHR ''-''" "a \<noteq> CHR ''+''"
    using digit_char_props [OF k(1)] k(2) by auto
  have "parseInt (a # as) = parse_unsigned (a # as)"
    using a by (simp add: parseInt_def)
  also have "\<dots> = parse_digits 10 (decimal n)"
    using decimal_take2 [of n] parse_unsigned_decimal [of "decimal n"] d by metis
  also have "\<dots> = Num (int n)"
    using decimal_nonempty [of n]
    by (simp add: parse_digits_def decimal_takeWhile decimal_value)
  finally show ?thesis using d by simp
qed

lemma split_nonempty: "split sep s \<noteq> []"
  by (induction s) (auto split: list.splits)

lemma split_no_sep: "sep \<notin> set x \<Longrightarrow> split sep x = [x]"
  by (induction x) auto

lemma split_append_sep: "sep \<notin> set x \<Longrightarrow> split sep (x @ sep # s) = x # split sep s"
  by (induction x) auto

lemma split_join:
  "\<forall>x\<in>set xs. sep \<notin> set x \<Longrightarrow> xs \<noteq> [] \<Longrightarrow> split sep (join [sep] xs) = xs"
  by (induction "[sep]" xs rule: join.induct) (auto simp: split_no_sep split_append_sep)

lemma join_Cons_Cons: "join sep ((c # a) # xs) = c # join sep (a # xs)"
  by (cases xs) simp_all

lemma join_split: "join [sep] (split sep s) = s"
proof (induction s)
  case Nil
  then show ?case by simp
next
  case (Cons c cs)
  then show ?case
    by (cases "split sep cs") (auto simp: split_nonempty join_Cons_Cons split: list.splits)
qed

section \<open>Properties of the Comment Flattener (continued)\<close>

lemma js_String_nat: "js_String (Num (int n)) = decimal n"
  by simp

lemma numberingString_decimal: "numberingString ns = join ''.'' (map decimal ns)"
  by (simp add: numberingString_def)

lemma join_snoc: "xs \<noteq> [] \<Longrightarrow> join sep (xs @ [x]) = join sep xs @ sep @ x"
  by (induction sep xs rule: join.induct) auto

lemma numberingString_snoc:
  "numberingString (p @ [k]) = (if p = [] then decimal k else numberingString p @ ''.'' @ decimal k)"
  by (simp add: numberingString_decimal join_snoc)

lemma split_numberingString:
  "ns \<noteq> [] \<Longrightarrow> split CHR ''.'' (numberingString ns) = map decimal ns"
  unfolding numberingString_decimal
  by (rule split_join) (auto simp: decimal_no_dot)

lemma parse_numberingString:
  "ns \<noteq> [] \<Longrightarrow> map parseInt (split CHR ''.'' (numberingString ns)) = map (\<lambda>n. Num (int n)) ns"
  by (simp add: split_numberingString parseInt_decimal)

lemma length_preorder_rows: "length (preorder_rows p k comments) = count_comments comments"
  by (induction p k comments rule: preorder_rows.induct) simp_all

lemma preorder_rows_append:
  "preorder_rows p k (xs @ ys) = preorder_rows p k xs @ preorder_rows p (k + not_stubs xs) ys"
  by (induction p k xs rule: preorder_rows.induct) (simp_all add: not_stubs_def)

lemma preorder_rows_T1:
  "preorder_rows p k (T1 c replies # rest) =
     make_row (p @ [Suc k]) c # preorder_rows (p @ [Suc k]) 0 (children_of replies)
       @ preorder_rows p (Suc k) rest"
  by (cases replies) (simp_all add: children_of_def)

lemma preorder_rows_shape:
  "r \<in> set (preorder_rows p k comments) \<Longrightarrow>
     \<exists>ns c. r = make_row (p @ ns) c \<and> ns \<noteq> [] \<and> (\<forall>n\<in>set ns. 0 < n)"
proof (induction p k comments rule: preorder_rows.induct)
  case (1 p k)
  then show ?case by simp
next
  case (2 p k rest)
  then show ?case by simp
next
  case (3 p k c rest)
  from "3.prems" have "r = make_row (p @ [Suc k]) c \<or> r \<in> set (preorder_rows p (Suc k) rest)"
    by simp
  then show ?case
  proof
    assume "r = make_row (p @ [Suc k]) c"
    then have "r = make_row (p @ [Suc k]) c \<and> [Suc k] \<noteq> [] \<and> (\<forall>n\<in>set [Suc k]. 0 < n)"
      by simp
    then show ?thesis by blast
  next
    assume "r \<in> set (preorder_rows p (Suc k) rest)"
    then show ?thesis by (rule "3.IH")
  qed
next
  case (4 p k c children rest)
  from "4.prems" consider "r = make_row (p @ [Suc k]) c"
    | "r \<in> set (preorder_rows (p @ [Suc k]) 0 children)"
    | "r \<in> set (preorder_rows p (Suc k) rest)"
    by auto
  then show ?case
  proof cases
    case 1
    then have "r = make_row (p @ [Suc k]) c \<and> [Suc k] \<noteq> [] \<and> (\<forall>n\<in>set [Suc k]. 0 < n)"
      by simp
    then show ?thesis by blast
  next
    case 2
    from "4.IH"(1) [OF 2] obtain ns c' where
      "r = make_row ((p @ [Suc k]) @ ns) c'" "ns \<noteq> []" "\<forall>n\<in>set ns. 0 < n"
      by blast
    then have "r = make_row (p @ (Suc k # ns)) c' \<and> Suc k # ns \<noteq> [] \<and> (\<forall>n\<in>set (Suc k # ns). 0 < n)"
      by simp
    then show ?thesis by blast
  next
    case 3
    then show ?thesis by (rule "4.IH"(2))
  qed
qed

lemma make_row_level:
  "ns \<noteq> [] \<Longrightarrow> level (make_row ns c) = length (split CHR ''.'' (numbering (make_row ns c)))"
  by (simp add: make_row_def split_numberingString)

lemma preorder_rows_level:
  "r \<in> set (preorder_rows p k comments) \<Longrightarrow> level r = length (split CHR ''.'' (numbering r))"
  using preorder_rows_shape [of r p k comments] make_row_level by force

text \<open>
  C1. buildTableData appends to the rows it is given; from the empty table it gives one
  record per comment that is not a stub; a stub changes nothing (no record, no
  counter value); the records of a listing are, for each comment of it, the records of
  the comments before it, then the comment's own record, numbered with the prefix and
  one plus the number of earlier siblings that are not stubs, then the records of its
  replies under that numbering as their prefix, then the records of its later
  siblings; the numbering string of a record is its parent's followed by a dot and the
  counter; and the level of every record is the number of dot-separated segments of its
  numbering.
\<close>

theorem buildTableData_preorder:
  "buildTableData comments p rows = rows @ buildTableData comments p []
   \<and> length (buildTableData comments p []) = count_comments comments
   \<and> buildTableData (before @ More # after) p [] = buildTableData (before @ after) p []
   \<and> buildTableData (before @ T1 c replies # after) p [] =
        buildTableData before p []
        @ [make_row (p @ [Suc (not_stubs before)]) c]
        @ buildTableData (children_of replies) (p @ [Suc (not_stubs before)]) []
        @ forEach_child after p (Suc (not_stubs before)) []
   \<and> length (forEach_child after p (Suc (not_stubs before)) []) = count_comments after
   \<and> numbering (make_row (p @ [k]) c) =
        (if p = [] then decimal k else numberingString p @ ''.'' @ decimal k)
   \<and> level (make_row (p @ [k]) c) = Suc (length p)
   \<and> (\<forall>r\<in>set (buildTableData comments [] []). level r = length (split CHR ''.'' (numbering r)))"
proof -
  have 1: "buildTableData comments p rows = rows @ buildTableData comments p []"
    by (simp add: flatten_preorder)
  have 2: "length (buildTableData comments p []) = count_comments comments"
    by (simp add: flatten_preorder length_preorder_rows)
  have 3: "buildTableData (before @ More # after) p [] = buildTableData (before @ after) p []"
    by (simp add: flatten_preorder preorder_rows_append)
  have 4: "buildTableData (before @ T1 c replies # after) p [] =
        buildTableData before p []
        @ [make_row (p @ [Suc (not_stubs before)]) c]
        @ buildTableData (children_of replies) (p @ [Suc (not_stubs before)]) []
        @ forEach_child after p (Suc (not_stubs before)) []"
    by (simp add: flatten_preorder preorder_rows_append preorder_rows_T1)
  have 5: "length (forEach_child after p (Suc (not_stubs before)) []) = count_comments after"
    by (simp add: flatten_preorder length_preorder_rows)
  have 6: "numbering (make_row (p @ [k]) c) =
        (if p = [] then decimal k else numberingString p @ ''.'' @ decimal k)"
    using numberingString_snoc [of p k] by (simp add: make_row_def)
  have 7: "level (make_row (p @ [k]) c) = Suc (length p)"
    by (simp add: make_row_def)
  have 8: "\<forall>r\<in>set (buildTableData comments [] []). level r = length (split CHR ''.'' (numbering r))"
    by (simp add: flatten_preorder preorder_rows_level)
  show ?thesis
    using 1 2 3 4 5 6 7 8 by blast
qed

theorem buildTableData_preorder_witness:
  "map numbering (buildTableData scenario [] []) = [''1'', ''1.1'', ''1.2'', ''1.2.1'']
   \<and> map level (buildTableData scenario [] []) = [1, 2, 2, 3]
   \<and> length (buildTableData scenario [] []) = count_comments scenario
   \<and> list_all (\<lambda>r. level r = length (split CHR ''.'' (numbering r))) (buildTableData scenario [] [])"
proof -
  have a: "map numbering (buildTableData scenario [] []) = [''1'', ''1.1'', ''1.2'', ''1.2.1'']"
    by (simp add: scenario_def make_row_def numberingString_def decimal_small)
  have b: "map level (buildTableData scenario [] []) = [1, 2, 2, 3]"
    by (simp add: scenario_def make_row_def)
  have c: "length (buildTableData scenario [] []) = count_comments scenario"
    using buildTableData_preorder [of scenario "[]" "[]"] by blast
  have d: "\<forall>r\<in>set (buildTableData scenario [] []). level r = length (split CHR ''.'' (numbering r))"
    using buildTableData_preorder [of scenario "[]" "[]"] by blast
  show ?thesis
    using a b c d by (simp add: list_all_iff)
qed

section \<open>Defaults of the record fields\<close>

lemma make_row_defaults:
  "body (make_row ns c) = (case c_body c of None \<Rightarrow> ''[deleted]'' | Some b \<Rightarrow> if b = [] then ''[deleted]'' else b)
   \<and> author (make_row ns c) = (case c_author c of None \<Rightarrow> ''[deleted]'' | Some a \<Rightarrow> if a = [] then ''[deleted]'' else a)
   \<and> upvotes (make_row ns c) = (case c_ups c of None \<Rightarrow> 0 | Some u \<Rightarrow> u)
   \<and> downvotes (make_row ns c) = (case c_downs c of None \<Rightarrow> 0 | Some d \<Rightarrow> d)
   \<and> (c_score c = Some s \<longrightarrow> score (make_row ns c) = Num s)
   \<and> (c_score c = None \<and> c_ups c = Some u \<and> c_downs c = Some d \<longrightarrow>
        score (make_row ns c) = Num (upvotes (make_row ns c) - downvotes (make_row ns c)))"
  by (simp add: make_row_def str_or_def num_or_def field_minus_def split: option.splits)

text \<open>
  C6 on a comment whose data carries neither score nor ups nor downs: the record's
  upvotes and downvotes are the default 0, so the claim's fallback is 0 - 0 = 0, but
  the score emitted is \<open>undefined - undefined\<close>, that is NaN.
\<close>

theorem score_fallback_not_defaulted:
  "buildTableData
     [T1 \<lparr> c_body = Some ''text'', c_author = Some ''bob'', c_ups = None, c_downs = None,
           c_score = None, c_created_utc = None \<rparr> None] [] []
   = [\<lparr> numbering = ''1'', level = 1, body = ''text'', author = ''bob'', upvotes = 0,
        downvotes = 0, score = NaN, dateUtc = None \<rparr>]"
  by (simp add: make_row_def numberingString_def decimal_small str_or_def num_or_def field_minus_def)

section \<open>Properties of the Hierarchical Comparator and of the Sorter\<close>

lemma elem_or0_beyond: "length a \<le> i \<Longrightarrow> elem_or0 a i = 0"
  by (simp add: elem_or0_def)

lemma tail_equal:
  "max (length a) (length b) \<le> i \<Longrightarrow> map (elem_or0 a) [i..<n] = map (elem_or0 b) [i..<n]"
  by (simp add: elem_or0_beyond)

lemma compareArray_from_lex:
  "max (length a) (length b) \<le> n \<Longrightarrow>
     compareArray_from i a b = lex_sign (map (elem_or0 a) [i..<n]) (map (elem_or0 b) [i..<n])"
proof (induction i a b rule: compareArray_from.induct)
  case (1 i a b)
  show ?case
  proof (cases "i < max (length a) (length b)")
    case True
    with "1.prems" have "i < n" by arith
    then have u: "[i..<n] = i # [i + 1..<n]"
      by (simp add: upt_conv_Cons)
    show ?thesis
    proof (cases "elem_or0 a i < elem_or0 b i")
      case lt: True
      then show ?thesis
        using True by (subst compareArray_from.simps) (simp add: u lex_sign_def)
    next
      case nlt: False
      show ?thesis
      proof (cases "elem_or0 b i < elem_or0 a i")
        case gt: True
        then show ?thesis
          using True nlt by (subst compareArray_from.simps) (simp add: u lex_sign_def)
      next
        case ngt: False
        with nlt have e: "elem_or0 a i = elem_or0 b i" by simp
        have "compareArray_from i a b = compareArray_from (i + 1) a b"
          using True e by (subst compareArray_from.simps) simp
        also have "\<dots> = lex_sign (map (elem_or0 a) [i + 1..<n]) (map (elem_or0 b) [i + 1..<n])"
          using "1.IH" [OF True refl refl] nlt ngt "1.prems" by simp
        also have "\<dots> = lex_sign (map (elem_or0 a) [i..<n]) (map (elem_or0 b) [i..<n])"
          using e by (simp add: u lex_sign_def)
        finally show ?thesis .
      qed
    qed
  next
    case False
    then have "max (length a) (length b) \<le> i"
      by arith
    then have eq: "map (elem_or0 a) [i..<n] = map (elem_or0 b) [i..<n]"
      by (rule tail_equal)
    have "compareArray_from i a b = 0"
      using False by (subst compareArray_from.simps) simp
    moreover have "lex_sign (map (elem_or0 a) [i..<n]) (map (elem_or0 b) [i..<n]) = 0"
      unfolding eq by (simp add: lex_sign_def)
    ultimately show ?thesis by simp
  qed
qed

lemma compareArray_lex:
  "length a \<le> n \<Longrightarrow> length b \<le> n \<Longrightarrow> compareArray a b = lex_sign (padded n a) (padded n b)"
  unfolding compareArray_def padded_def by (rule compareArray_from_lex) simp

lemma compareArray_range: "compareArray a b \<in> {- 1, 0, 1}"
  using compareArray_lex [of a "max (length a) (length b)" b] by (simp add: lex_sign_def)

lemma lex_sign_flip: "lex_sign ys xs = - lex_sign xs ys"
  by (auto simp: lex_sign_def)

lemma compareArray_flip: "compareArray b a = - compareArray a b"
proof -
  define n where "n = max (length a) (length b)"
  have 1: "compareArray a b = lex_sign (padded n a) (padded n b)"
    by (rule compareArray_lex) (simp_all add: n_def)
  have 2: "compareArray b a = lex_sign (padded n b) (padded n a)"
    by (rule compareArray_lex) (simp_all add: n_def)
  show ?thesis
    unfolding 1 2 by (rule lex_sign_flip)
qed

lemma compareArray_le_iff:
  "length a \<le> n \<Longrightarrow> length b \<le> n \<Longrightarrow> compareArray a b \<le> 0 \<longleftrightarrow> padded n a \<le> padded n b"
  by (auto simp: compareArray_lex lex_sign_def)

lemma compareArray_trans:
  assumes "compareArray a b \<le> 0" "compareArray b c \<le> 0"
  shows "compareArray a c \<le> 0"
proof -
  define n where "n = max (length a) (max (length b) (length c))"
  have l: "length a \<le> n" "length b \<le> n" "length c \<le> n"
    by (simp_all add: n_def)
  from assms have "padded n a \<le> padded n b" "padded n b \<le> padded n c"
    using l by (simp_all add: compareArray_le_iff)
  then have "padded n a \<le> padded n c" by (rule order_trans)
  then show ?thesis using l by (simp add: compareArray_le_iff)
qed

lemma compareArray_refl: "compareArray a a = 0"
  using compareArray_lex [of a "length a" a] by (simp add: lex_sign_def)

lemma compareArray_eq_iff:
  "length a \<le> n \<Longrightarrow> length b \<le> n \<Longrightarrow> compareArray a b = 0 \<longleftrightarrow> padded n a = padded n b"
  by (auto simp: compareArray_lex lex_sign_def)

lemma elem_or0_Num: "i < length ns \<Longrightarrow> elem_or0 (map (\<lambda>n. Num (int n)) ns) i = int (ns ! i)"
  by (simp add: elem_or0_def)

lemma compareArray_positive_eq:
  assumes p: "\<forall>n\<in>set ns. 0 < n" "\<forall>n\<in>set ms. 0 < n"
    and c: "compareArray (map (\<lambda>n. Num (int n)) ns) (map (\<lambda>n. Num (int n)) ms) = 0"
  shows "ns = ms"
proof -
  let ?a = "map (\<lambda>n. Num (int n)) ns" and ?b = "map (\<lambda>n. Num (int n)) ms"
  define n where "n = max (length ns) (length ms)"
  have "padded n ?a = padded n ?b"
    using c by (simp add: compareArray_eq_iff [of ?a n ?b] n_def)
  then have e: "\<And>i. i < n \<Longrightarrow> elem_or0 ?a i = elem_or0 ?b i"
    by (simp add: padded_def)
  have len: "length ns = length ms"
  proof (rule ccontr)
    assume "length ns \<noteq> length ms"
    then consider "length ns < length ms" | "length ms < length ns" by linarith
    then show False
    proof cases
      case 1
      then have "elem_or0 ?a (length ns) = elem_or0 ?b (length ns)"
        by (intro e) (simp add: n_def)
      moreover have "elem_or0 ?a (length ns) = 0" by (simp add: elem_or0_def)
      moreover have "elem_or0 ?b (length ns) = int (ms ! length ns)"
        using 1 by (simp add: elem_or0_Num)
      moreover have "0 < ms ! length ns" using p(2) 1 by simp
      ultimately show False by simp
    next
      case 2
      then have "elem_or0 ?a (length ms) = elem_or0 ?b (length ms)"
        by (intro e) (simp add: n_def)
      moreover have "elem_or0 ?b (length ms) = 0" by (simp add: elem_or0_def)
      moreover have "elem_or0 ?a (length ms) = int (ns ! length ms)"
        using 2 by (simp add: elem_or0_Num)
      moreover have "0 < ns ! length ms" using p(1) 2 by simp
      ultimately show False by simp
    qed
  qed
  show ?thesis
  proof (rule nth_equalityI [OF len])
    fix i assume i: "i < length ns"
    then have "elem_or0 ?a i = elem_or0 ?b i"
      by (intro e) (simp add: n_def)
    then show "ns ! i = ms ! i"
      using i len by (simp add: elem_or0_Num)
  qed
qed

lemma flattener_numbering:
  assumes "s \<in> numbering ` set (buildTableData comments [] rows0)" "rows0 = []"
  shows "\<exists>ns. ns \<noteq> [] \<and> (\<forall>n\<in>set ns. 0 < n) \<and> s = numberingString ns"
proof -
  from assms obtain r where r: "r \<in> set (preorder_rows [] 0 comments)" "s = numbering r"
    by (auto simp: flatten_preorder simp del: buildTableData.simps)
  from preorder_rows_shape [OF r(1)] obtain ns c where
    "r = make_row ([] @ ns) c" "ns \<noteq> []" "\<forall>n\<in>set ns. 0 < n"
    by blast
  then show ?thesis
    using r(2) by (auto simp: make_row_def)
qed

lemma compare_numbering_strings:
  "ns \<noteq> [] \<Longrightarrow> ms \<noteq> [] \<Longrightarrow>
     compare_numbering (numberingString ns) (numberingString ms) =
       compareArray (map (\<lambda>n. Num (int n)) ns) (map (\<lambda>n. Num (int n)) ms)"
  by (simp add: compare_numbering_def parse_numberingString)

lemma compare_numbering_flip: "compare_numbering t s = - compare_numbering s t"
  unfolding compare_numbering_def Let_def by (rule compareArray_flip)

lemma compare_numbering_trans:
  "compare_numbering s t \<le> 0 \<Longrightarrow> compare_numbering t u \<le> 0 \<Longrightarrow> compare_numbering s u \<le> 0"
  unfolding compare_numbering_def Let_def by (rule compareArray_trans)

lemma compare_numbering_refl: "compare_numbering s s = 0"
  by (simp add: compare_numbering_def compareArray_refl)

lemma compare_numbering_antisym:
  assumes "s \<in> numbering ` set (buildTableData cs1 [] [])"
    and "t \<in> numbering ` set (buildTableData cs2 [] [])"
    and "compare_numbering s t = 0"
  shows "s = t"
proof -
  from flattener_numbering [OF assms(1) refl] obtain ns where
    ns: "ns \<noteq> []" "\<forall>n\<in>set ns. 0 < n" "s = numberingString ns" by blast
  from flattener_numbering [OF assms(2) refl] obtain ms where
    ms: "ms \<noteq> []" "\<forall>n\<in>set ms. 0 < n" "t = numberingString ms" by blast
  from assms(3) have "compareArray (map (\<lambda>n. Num (int n)) ns) (map (\<lambda>n. Num (int n)) ms) = 0"
    using ns ms by (simp add: compare_numbering_strings)
  then have "ns = ms"
    by (rule compareArray_positive_eq [OF ns(2) ms(2)])
  then show ?thesis using ns ms by simp
qed

lemma compare_examples:
  "compare_numbering ''2.9'' ''2.10'' = - 1" "compare_numbering ''2'' ''2.1'' = - 1"
  "compare_numbering ''2.10'' ''2.9'' = 1"
  by code_simp+

lemma mset_insert_sorted: "mset (insert_sorted f x ys) = add_mset x (mset ys)"
  by (induction ys) simp_all

lemma mset_js_sort: "mset (js_sort f xs) = mset xs"
  by (induction xs) (simp_all add: js_sort_def mset_insert_sorted)

lemma set_insert_sorted: "set (insert_sorted f x ys) = insert x (set ys)"
  by (induction ys) auto

lemma set_js_sort: "set (js_sort f xs) = set xs"
  by (induction xs) (simp_all add: js_sort_def set_insert_sorted)

lemma sorted_insert_sorted:
  assumes tot: "\<And>a b. a \<in> S \<Longrightarrow> b \<in> S \<Longrightarrow> sort_value (f a b) \<le> 0 \<or> sort_value (f b a) \<le> 0"
    and tr: "\<And>a b c. a \<in> S \<Longrightarrow> b \<in> S \<Longrightarrow> c \<in> S \<Longrightarrow>
               sort_value (f a b) \<le> 0 \<Longrightarrow> sort_value (f b c) \<le> 0 \<Longrightarrow> sort_value (f a c) \<le> 0"
  shows "x \<in> S \<Longrightarrow> set ys \<subseteq> S \<Longrightarrow> sorted_wrt (\<lambda>a b. sort_value (f a b) \<le> 0) ys \<Longrightarrow>
           sorted_wrt (\<lambda>a b. sort_value (f a b) \<le> 0) (insert_sorted f x ys)"
proof (induction ys)
  case Nil
  then show ?case by simp
next
  case (Cons y ys)
  show ?case
  proof (cases "sort_value (f x y) \<le> 0")
    case True
    have "\<forall>z\<in>set ys. sort_value (f x z) \<le> 0"
    proof
      fix z assume z: "z \<in> set ys"
      with Cons.prems have "sort_value (f y z) \<le> 0" by simp
      with True show "sort_value (f x z) \<le> 0"
        using tr [of x y z] Cons.prems z by auto
    qed
    with True Cons.prems show ?thesis by simp
  next
    case False
    then have yx: "sort_value (f y x) \<le> 0"
      using tot [of x y] Cons.prems by auto
    have "sorted_wrt (\<lambda>a b. sort_value (f a b) \<le> 0) (insert_sorted f x ys)"
      using Cons by simp
    with False yx Cons.prems show ?thesis
      by (simp add: set_insert_sorted)
  qed
qed

lemma sorted_js_sort:
  assumes tot: "\<And>a b. a \<in> S \<Longrightarrow> b \<in> S \<Longrightarrow> sort_value (f a b) \<le> 0 \<or> sort_value (f b a) \<le> 0"
    and tr: "\<And>a b c. a \<in> S \<Longrightarrow> b \<in> S \<Longrightarrow> c \<in> S \<Longrightarrow>
               sort_value (f a b) \<le> 0 \<Longrightarrow> sort_value (f b c) \<le> 0 \<Longrightarrow> sort_value (f a c) \<le> 0"
  shows "set xs \<subseteq> S \<Longrightarrow> sorted_wrt (\<lambda>a b. sort_value (f a b) \<le> 0) (js_sort f xs)"
proof (induction xs)
  case Nil
  then show ?case by (simp add: js_sort_def)
next
  case (Cons x xs)
  have "sorted_wrt (\<lambda>a b. sort_value (f a b) \<le> 0) (insert_sorted f x (js_sort f xs))"
  proof (rule sorted_insert_sorted [where S = S])
    show "x \<in> S" using Cons.prems by simp
    show "set (js_sort f xs) \<subseteq> S" using Cons.prems by (simp add: set_js_sort)
    show "sorted_wrt (\<lambda>a b. sort_value (f a b) \<le> 0) (js_sort f xs)"
      using Cons by simp
  qed (use tot tr in blast)+
  then show ?case by (simp add: js_sort_def)
qed

text \<open>The callback for descending order is the negated callback for ascending order.\<close>

lemma sort_value_Num: "sort_value (Num i) = i"
  by (simp add: sort_value_def)

lemma compare_strings_False:
  "sort_value (compare_strings False x y) = - sort_value (compare_strings True x y)"
  by (simp add: compare_strings_def sort_value_def)

lemma js_times_False:
  "sort_value (js_times v (Num (- 1))) = - sort_value (js_times v (Num 1))"
  by (cases v) (simp_all add: sort_value_def)

lemma comparefn_direction:
  "sort_value (comparefn column asc a b) = direction asc * column_order column a b"
proof (cases asc)
  case True
  then show ?thesis by (simp add: column_order_def direction_def)
next
  case False
  then show ?thesis
    by (simp add: column_order_def comparefn_def direction_def sort_value_Num
        compare_strings_False js_times_False)
qed

lemma compare_strings_flip:
  "sort_value (compare_strings True y x) = - sort_value (compare_strings True x y)"
  by (auto simp: compare_strings_def sort_value_def)

lemma compare_strings_trans:
  "sort_value (compare_strings True x y) \<le> 0 \<Longrightarrow> sort_value (compare_strings True y z) \<le> 0 \<Longrightarrow>
     sort_value (compare_strings True x z) \<le> 0"
  by (auto simp: compare_strings_def sort_value_def split: if_splits)

lemma js_minus_flip:
  "sort_value (js_times (js_minus y x) (Num 1)) = - sort_value (js_times (js_minus x y) (Num 1))"
  by (cases x; cases y) (simp_all add: sort_value_def)

lemma js_minus_trans:
  "x \<noteq> NaN \<Longrightarrow> y \<noteq> NaN \<Longrightarrow> z \<noteq> NaN \<Longrightarrow>
     sort_value (js_times (js_minus x y) (Num 1)) \<le> 0 \<Longrightarrow>
     sort_value (js_times (js_minus y z) (Num 1)) \<le> 0 \<Longrightarrow>
     sort_value (js_times (js_minus x z) (Num 1)) \<le> 0"
  by (cases x; cases y; cases z) (simp_all add: sort_value_def)

lemma numeric_field_not_NaN:
  "(column = ''score'' \<longrightarrow> score r \<noteq> NaN) \<Longrightarrow>
     column \<in> set [''upvotes'', ''downvotes'', ''level'', ''score''] \<Longrightarrow> numeric_field column r \<noteq> NaN"
  by (auto simp: numeric_field_def)

lemma column_order_flip: "column_order column b a = - column_order column a b"
  unfolding column_order_def comparefn_def
  using compare_numbering_flip [of "numbering b" "numbering a"]
  by (simp add: direction_def sort_value_Num compare_strings_flip [of "toLowerCase (body a)"]
      compare_strings_flip [of "toLowerCase (field_text column a)"]
      js_minus_flip [of "numeric_field column a"])

lemma column_order_trans:
  assumes "column = ''score'' \<longrightarrow> score a \<noteq> NaN \<and> score b \<noteq> NaN \<and> score c \<noteq> NaN"
    and "column_order column a b \<le> 0" "column_order column b c \<le> 0"
  shows "column_order column a c \<le> 0"
proof -
  consider (num) "column = ''numbering''"
    | (date) "column \<noteq> ''numbering''" "column = ''dateUtc''"
    | (numeric) "column \<noteq> ''numbering''" "column \<noteq> ''dateUtc''"
        "column \<in> set [''upvotes'', ''downvotes'', ''level'', ''score'']"
    | (body) "column \<noteq> ''numbering''" "column \<noteq> ''dateUtc''"
        "column \<notin> set [''upvotes'', ''downvotes'', ''level'', ''score'']" "column = ''body''"
    | (other) "column \<noteq> ''numbering''" "column \<noteq> ''dateUtc''"
        "column \<notin> set [''upvotes'', ''downvotes'', ''level'', ''score'']" "column \<noteq> ''body''"
    by blast
  then show ?thesis
  proof cases
    case num
    with assms(2,3) show ?thesis
      using compare_numbering_trans [of "numbering a" "numbering b" "numbering c"]
      by (simp add: column_order_def comparefn_def direction_def sort_value_Num)
  next
    case date
    with assms(2,3) show ?thesis
      by (simp add: column_order_def comparefn_def direction_def sort_value_Num)
  next
    case numeric
    have n: "numeric_field column a \<noteq> NaN" "numeric_field column b \<noteq> NaN"
      "numeric_field column c \<noteq> NaN"
      using assms(1) numeric(3) by (simp_all add: numeric_field_not_NaN)
    from assms(2,3) numeric show ?thesis
      using js_minus_trans [OF n]
      by (simp add: column_order_def comparefn_def direction_def)
  next
    case body
    with assms(2,3) show ?thesis
      using compare_strings_trans [of "toLowerCase (body a)" "toLowerCase (body b)" "toLowerCase (body c)"]
      by (simp add: column_order_def comparefn_def)
  next
    case other
    with assms(2,3) show ?thesis
      using compare_strings_trans [of "toLowerCase (field_text column a)"
          "toLowerCase (field_text column b)" "toLowerCase (field_text column c)"]
      by (simp add: column_order_def comparefn_def)
  qed
qed

lemma has_property_any: "has_property column r = has_property column r'"
  by (simp add: has_property_def)

lemma sortTable_noop: "\<not> sortable column st \<Longrightarrow> sortTable column st = st"
  by (auto simp: sortable_def sortTable_def)

lemma sortTable_sorts:
  "sortable column st \<Longrightarrow>
     sortTable column st =
       \<lparr> tableData = js_sort (comparefn column (sortAsc st)) (tableData st),
         tableBuilt = True, sortAsc = \<not> sortAsc st \<rparr>"
  by (auto simp: sortable_def sortTable_def renderTable_def)

lemma sortable_after:
  assumes "sortable column st"
  shows "sortable column' (sortTable column st) = sortable column' st"
proof -
  have "set (tableData (sortTable column st)) = set (tableData st)"
    using assms by (simp add: sortTable_sorts set_js_sort)
  moreover from assms have "tableData st \<noteq> []" by (simp add: sortable_def)
  ultimately have "tableData (sortTable column st) \<noteq> []"
    by (metis set_empty)
  then show ?thesis
    using assms has_property_any [of column' "hd (tableData (sortTable column st))" "hd (tableData st)"]
    by (simp add: sortable_def sortTable_sorts)
qed

lemma sorted_by_comparefn:
  assumes "column = ''score'' \<longrightarrow> (\<forall>r\<in>set xs. score r \<noteq> NaN)"
  shows "sorted_wrt (\<lambda>a b. direction asc * column_order column a b \<le> 0)
           (js_sort (comparefn column asc) xs)"
proof -
  let ?S = "{r. column = ''score'' \<longrightarrow> score r \<noteq> NaN}"
  have "sorted_wrt (\<lambda>a b. sort_value (comparefn column asc a b) \<le> 0)
          (js_sort (comparefn column asc) xs)"
  proof (rule sorted_js_sort [where S = ?S])
    fix a b
    show "sort_value (comparefn column asc a b) \<le> 0 \<or> sort_value (comparefn column asc b a) \<le> 0"
      using column_order_flip [of column b a]
      by (cases asc) (simp_all add: comparefn_direction direction_def, linarith+)
  next
    fix a b c
    assume S: "a \<in> ?S" "b \<in> ?S" "c \<in> ?S"
      and ab: "sort_value (comparefn column asc a b) \<le> 0"
      and bc: "sort_value (comparefn column asc b c) \<le> 0"
    show "sort_value (comparefn column asc a c) \<le> 0"
    proof (cases asc)
      case True
      with ab bc have "column_order column a b \<le> 0" "column_order column b c \<le> 0"
        by (simp_all add: comparefn_direction direction_def)
      then have "column_order column a c \<le> 0"
        using S by (intro column_order_trans [of column a b c]) auto
      with True show ?thesis by (simp add: comparefn_direction direction_def)
    next
      case False
      with ab bc have "column_order column b a \<le> 0" "column_order column c b \<le> 0"
        using column_order_flip [of column b a] column_order_flip [of column c b]
        by (simp_all add: comparefn_direction direction_def)
      then have "column_order column c a \<le> 0"
        using S by (intro column_order_trans [of column c b a]) auto
      with False show ?thesis
        using column_order_flip [of column c a] by (simp add: comparefn_direction direction_def)
    qed
  next
    show "set xs \<subseteq> ?S" using assms by auto
  qed
  then show ?thesis by (simp add: comparefn_direction)
qed

lemma direction_not: "direction (\<not> asc) = - direction asc"
  by (simp add: direction_def)

lemma scenario_numbering:
  "map numbering (buildTableData scenario [] []) = [''1'', ''1.1'', ''1.2'', ''1.2.1'']"
  by (simp add: scenario_def make_row_def numberingString_def decimal_small)

lemma exported_fields:
  "tableData (exported comments) = buildTableData comments [] []"
  "tableBuilt (exported comments)" "sortAsc (exported comments)"
  by (simp_all add: exported_def onload_def startExport_def initial_state_def renderTable_def)

lemma scenario_rows_nonempty: "tableData (exported scenario) \<noteq> []"
  using scenario_numbering by (auto simp: exported_fields simp del: buildTableData.simps)

lemma level_twice:
  "map numbering (tableData (sortTable ''level'' (exported scenario))) = [''1'', ''1.1'', ''1.2'', ''1.2.1'']"
  "map numbering (tableData (sortTable ''level'' (sortTable ''level'' (exported scenario))))
     = [''1.2.1'', ''1.1'', ''1.2'', ''1'']"
  by code_simp+

lemma level_unequal:
  "column_order ''level'' (hd (tableData (exported scenario))) (last (tableData (exported scenario))) = - 2"
  by code_simp

text \<open>
  C3. compareArray returns -1, 0 or 1; it compares the two arrays segment by segment
  as numbers, a missing segment read as 0, that is, it is the lexicographic comparison
  of the arrays padded with zeros to a common length; on "2.9" and "2.10" and on "2" and
  "2.1" it returns -1; and on the numbering strings of records produced by the Flattener
  it is a total order: reflexive, antisymmetric, transitive, and total.
\<close>

theorem compareArray_total_order:
  "compareArray a b \<in> {- 1, 0, 1}
   \<and> (length a \<le> n \<and> length b \<le> n \<longrightarrow>
        compareArray a b =
          (if padded n a < padded n b then - 1 else if padded n b < padded n a then 1 else 0))
   \<and> compare_numbering ''2.9'' ''2.10'' = - 1
   \<and> compare_numbering ''2'' ''2.1'' = - 1
   \<and> (s \<in> numbering ` set (buildTableData cs1 [] []) \<and> t \<in> numbering ` set (buildTableData cs2 [] [])
        \<longrightarrow> compare_numbering s s = 0 \<and> (compare_numbering s t = 0 \<longrightarrow> s = t))
   \<and> compare_numbering t s = - compare_numbering s t
   \<and> (compare_numbering s t \<le> 0 \<or> compare_numbering t s \<le> 0)
   \<and> (compare_numbering s t \<le> 0 \<and> compare_numbering t u \<le> 0 \<longrightarrow> compare_numbering s u \<le> 0)"
proof -
  have 1: "compareArray a b \<in> {- 1, 0, 1}"
    by (rule compareArray_range)
  have 2: "length a \<le> n \<and> length b \<le> n \<longrightarrow>
        compareArray a b =
          (if padded n a < padded n b then - 1 else if padded n b < padded n a then 1 else 0)"
    using compareArray_lex [of a n b] by (simp add: lex_sign_def)
  have 3: "s \<in> numbering ` set (buildTableData cs1 [] []) \<and> t \<in> numbering ` set (buildTableData cs2 [] [])
        \<longrightarrow> compare_numbering s s = 0 \<and> (compare_numbering s t = 0 \<longrightarrow> s = t)"
    using compare_numbering_antisym [of s cs1 t cs2] compare_numbering_refl [of s] by blast
  have 4: "compare_numbering t s = - compare_numbering s t"
    by (rule compare_numbering_flip)
  have 5: "compare_numbering s t \<le> 0 \<or> compare_numbering t s \<le> 0"
    using 4 by linarith
  have 6: "compare_numbering s t \<le> 0 \<and> compare_numbering t u \<le> 0 \<longrightarrow> compare_numbering s u \<le> 0"
    using compare_numbering_trans by blast
  show ?thesis
    using 1 2 3 4 5 6 compare_examples(1,2) by blast
qed

theorem compareArray_total_order_witness:
  "compareArray [Num 2, Num 9] [Num 2, Num 10] = - 1
   \<and> padded 2 [Num 2, Num 9] < padded 2 [Num 2, Num 10]
   \<and> ''1.1'' \<in> numbering ` set (buildTableData scenario [] [])
   \<and> ''1.2'' \<in> numbering ` set (buildTableData scenario [] [])
   \<and> compare_numbering ''1.1'' ''1.2'' = - 1
   \<and> compare_numbering ''1.2'' ''1.1'' = 1
   \<and> compare_numbering ''1.1'' ''1.1'' = 0
   \<and> compare_numbering ''1.2'' ''1.2.1'' = - 1
   \<and> compare_numbering ''1.1'' ''1.2.1'' \<le> 0"
proof -
  have m: "numbering ` set (buildTableData scenario [] []) = {''1'', ''1.1'', ''1.2'', ''1.2.1''}"
    using scenario_numbering by (metis list.simps(15) set_map set_empty2 empty_set)
  have p: "padded 2 [Num 2, Num 9] < padded 2 [Num 2, Num 10]"
       "\<not> padded 2 [Num 2, Num 10] < padded 2 [Num 2, Num 9]"
    by code_simp+
  have c: "compare_numbering ''1.1'' ''1.2'' = - 1" "compare_numbering ''1.2'' ''1.2.1'' = - 1"
    by code_simp+
  have i: "''1.1'' \<in> numbering ` set (buildTableData scenario [] [])"
    "''1.2'' \<in> numbering ` set (buildTableData scenario [] [])"
    unfolding m by simp_all
  note T = compareArray_total_order [of "[Num 2, Num 9]" "[Num 2, Num 10]" 2 "''1.1''" scenario
      "''1.2''" scenario "''1.2.1''"]
  from T p have a1: "compareArray [Num 2, Num 9] [Num 2, Num 10] = - 1"
    by simp
  from T i have a2: "compare_numbering ''1.1'' ''1.1'' = 0"
    by blast
  from T c have a3: "compare_numbering ''1.2'' ''1.1'' = 1"
    by simp
  from T c have a4: "compare_numbering ''1.1'' ''1.2.1'' \<le> 0"
    by simp
  show ?thesis
    using a1 a2 a3 a4 p(1) c i by blast
qed

text \<open>
  C7. sortTable returns at once, with the table and the direction flag as they were,
  when the table has not been rendered for the current export, or is empty, or the
  column is neither a property of the first record nor body (body is a property of
  every record); on every other call the table is sorted by the column's callback for
  the current direction and the one flag is flipped, so that the next call, on whatever
  column, sorts in the opposite direction. (The sorted table is the one of
  \<open>js_sort\<close>, which is the order of every engine unless the column is score and
  a score is NaN.)
\<close>

theorem sortTable_guard_and_toggle:
  "(\<not> tableBuilt st \<or> tableData st = []
      \<or> (\<not> has_property column (hd (tableData st)) \<and> column \<noteq> ''body'')
     \<longrightarrow> sortTable column st = st)
   \<and> sortTable column (startExport st) = startExport st
   \<and> has_property ''body'' r
   \<and> (tableBuilt st \<and> tableData st \<noteq> [] \<and> (has_property column (hd (tableData st)) \<or> column = ''body'')
     \<longrightarrow> sortAsc (sortTable column st) = (\<not> sortAsc st)
        \<and> tableData (sortTable column st) = js_sort (comparefn column (sortAsc st)) (tableData st)
        \<and> (has_property column2 (hd (tableData st)) \<or> column2 = ''body''
            \<longrightarrow> tableData (sortTable column2 (sortTable column st))
                  = js_sort (comparefn column2 (\<not> sortAsc st)) (tableData (sortTable column st))
                \<and> sortAsc (sortTable column2 (sortTable column st)) = sortAsc st))"
proof -
  have 1: "\<not> tableBuilt st \<or> tableData st = []
      \<or> (\<not> has_property column (hd (tableData st)) \<and> column \<noteq> ''body'')
     \<longrightarrow> sortTable column st = st"
    by (auto simp: sortTable_def)
  have 2: "sortTable column (startExport st) = startExport st"
    by (simp add: sortTable_def startExport_def)
  have 3: "has_property ''body'' r"
    by (simp add: has_property_def row_keys_def)
  have 4: "tableBuilt st \<and> tableData st \<noteq> [] \<and> (has_property column (hd (tableData st)) \<or> column = ''body'')
     \<longrightarrow> sortAsc (sortTable column st) = (\<not> sortAsc st)
        \<and> tableData (sortTable column st) = js_sort (comparefn column (sortAsc st)) (tableData st)
        \<and> (has_property column2 (hd (tableData st)) \<or> column2 = ''body''
            \<longrightarrow> tableData (sortTable column2 (sortTable column st))
                  = js_sort (comparefn column2 (\<not> sortAsc st)) (tableData (sortTable column st))
                \<and> sortAsc (sortTable column2 (sortTable column st)) = sortAsc st)"
  proof (intro impI conjI)
    assume a: "tableBuilt st \<and> tableData st \<noteq> [] \<and> (has_property column (hd (tableData st)) \<or> column = ''body'')"
    then have s: "sortable column st" by (simp add: sortable_def)
    show "sortAsc (sortTable column st) = (\<not> sortAsc st)"
      using s by (simp add: sortTable_sorts)
    show "tableData (sortTable column st) = js_sort (comparefn column (sortAsc st)) (tableData st)"
      using s by (simp add: sortTable_sorts)
    assume b: "has_property column2 (hd (tableData st)) \<or> column2 = ''body''"
    with a have "sortable column2 st" by (simp add: sortable_def)
    then have s2: "sortable column2 (sortTable column st)"
      using s by (simp add: sortable_after)
    show "tableData (sortTable column2 (sortTable column st))
            = js_sort (comparefn column2 (\<not> sortAsc st)) (tableData (sortTable column st))"
      using sortTable_sorts [OF s2] s by (simp add: sortTable_sorts)
    show "sortAsc (sortTable column2 (sortTable column st)) = sortAsc st"
      using sortTable_sorts [OF s2] s by (simp add: sortTable_sorts)
  qed
  show ?thesis
    using 1 2 3 4 by blast
qed

theorem sortTable_guard_and_toggle_witness:
  "sortTable ''nosuchcolumn'' (exported scenario) = exported scenario
   \<and> sortTable ''level'' (startExport (exported scenario)) = startExport (exported scenario)
   \<and> sortAsc (exported scenario)
   \<and> \<not> sortAsc (sortTable ''level'' (exported scenario))
   \<and> sortAsc (sortTable ''author'' (sortTable ''level'' (exported scenario)))"
proof -
  have h: "tableBuilt (exported scenario)" "tableData (exported scenario) \<noteq> []"
    "sortAsc (exported scenario)"
    by (simp_all add: exported_fields(2,3) scenario_rows_nonempty)
  have p: "\<not> has_property ''nosuchcolumn'' (hd (tableData (exported scenario)))"
    "has_property ''level'' (hd (tableData (exported scenario)))"
    "has_property ''author'' (hd (tableData (exported scenario)))"
    by (simp_all add: has_property_def row_keys_def object_prototype_keys_def)
  from sortTable_guard_and_toggle [of "exported scenario" "''nosuchcolumn''"] p(1)
  have 1: "sortTable ''nosuchcolumn'' (exported scenario) = exported scenario"
    by simp
  from sortTable_guard_and_toggle [of "startExport (exported scenario)" "''level''"]
  have 2: "sortTable ''level'' (startExport (exported scenario)) = startExport (exported scenario)"
    by (simp add: startExport_def)
  from sortTable_guard_and_toggle [of "exported scenario" "''level''" _ "''author''"] h p(2,3)
  have 3: "\<not> sortAsc (sortTable ''level'' (exported scenario))"
    "sortAsc (sortTable ''author'' (sortTable ''level'' (exported scenario)))"
    by simp_all
  show ?thesis
    using 1 2 3 h(3) by blast
qed

text \<open>
  C5, as stated, fails: after the export of the scenario the table is in the order
  1, 1.1, 1.2, 1.2.1; two calls of the Sorter on the column level leave it in the order
  1.2.1, 1.1, 1.2, 1, although the first and the last record compare unequal under the
  rule of that column.
\<close>

theorem sortTable_twice_not_original:
  "map numbering (tableData (exported scenario)) = [''1'', ''1.1'', ''1.2'', ''1.2.1'']
   \<and> map numbering (tableData (sortTable ''level'' (sortTable ''level'' (exported scenario))))
       = [''1.2.1'', ''1.1'', ''1.2'', ''1'']
   \<and> column_order ''level'' (hd (tableData (exported scenario))) (last (tableData (exported scenario))) \<noteq> 0"
  using scenario_numbering level_twice(2) level_unequal
  by (simp add: exported_fields(1) del: buildTableData.simps)

text \<open>
  C5, amended. For a rendered, non-empty table and a valid column (for the column score,
  with no NaN among the scores), one call of the Sorter leaves the table sorted by the
  column's rule in the current direction, and a second call on the same column leaves
  the same records sorted in the opposite direction, so that every pair of records that
  compare unequal stands in the reverse of the order the first call gave it (not in its
  original order); the direction flag is back at its original value.
\<close>

theorem sortTable_twice:
  assumes "tableBuilt st" and "tableData st \<noteq> []"
    and "has_property column (hd (tableData st)) \<or> column = ''body''"
    and "column = ''score'' \<longrightarrow> (\<forall>r\<in>set (tableData st). score r \<noteq> NaN)"
  shows "sortAsc (sortTable column (sortTable column st)) = sortAsc st
    \<and> mset (tableData (sortTable column (sortTable column st))) = mset (tableData st)
    \<and> sorted_wrt (\<lambda>a b. direction (sortAsc st) * column_order column a b \<le> 0)
         (tableData (sortTable column st))
    \<and> sorted_wrt (\<lambda>a b. 0 \<le> direction (sortAsc st) * column_order column a b)
         (tableData (sortTable column (sortTable column st)))"
proof -
  let ?st1 = "sortTable column st"
  have s: "sortable column st"
    using assms(1-3) by (simp add: sortable_def)
  then have s1: "sortable column ?st1"
    by (simp add: sortable_after)
  have d1: "tableData ?st1 = js_sort (comparefn column (sortAsc st)) (tableData st)"
    and a1: "sortAsc ?st1 = (\<not> sortAsc st)"
    using s by (simp_all add: sortTable_sorts)
  have d2: "tableData (sortTable column ?st1) = js_sort (comparefn column (\<not> sortAsc st)) (tableData ?st1)"
    and a2: "sortAsc (sortTable column ?st1) = sortAsc st"
    using sortTable_sorts [OF s1] a1 by simp_all
  have m: "mset (tableData (sortTable column ?st1)) = mset (tableData st)"
    by (simp add: d1 d2 mset_js_sort)
  have "set (tableData ?st1) = set (tableData st)"
    by (simp add: d1 set_js_sort)
  with assms(4) have n1: "column = ''score'' \<longrightarrow> (\<forall>r\<in>set (tableData ?st1). score r \<noteq> NaN)"
    by blast
  have o1: "sorted_wrt (\<lambda>a b. direction (sortAsc st) * column_order column a b \<le> 0) (tableData ?st1)"
    unfolding d1 by (rule sorted_by_comparefn [OF assms(4)])
  have "sorted_wrt (\<lambda>a b. direction (\<not> sortAsc st) * column_order column a b \<le> 0)
          (tableData (sortTable column ?st1))"
    unfolding d2 by (rule sorted_by_comparefn [OF n1])
  then have o2: "sorted_wrt (\<lambda>a b. 0 \<le> direction (sortAsc st) * column_order column a b)
          (tableData (sortTable column ?st1))"
    by (simp add: direction_not)
  show ?thesis
    using a2 m o1 o2 by blast
qed

theorem sortTable_twice_witness:
  "sortAsc (sortTable ''level'' (sortTable ''level'' (exported scenario))) = sortAsc (exported scenario)
   \<and> mset (tableData (sortTable ''level'' (sortTable ''level'' (exported scenario))))
       = mset (tableData (exported scenario))
   \<and> sorted_wrt (\<lambda>a b. direction (sortAsc (exported scenario)) * column_order ''level'' a b \<le> 0)
         (tableData (sortTable ''level'' (exported scenario)))
   \<and> sorted_wrt (\<lambda>a b. 0 \<le> direction (sortAsc (exported scenario)) * column_order ''level'' a b)
         (tableData (sortTable ''level'' (sortTable ''level'' (exported scenario))))"
proof -
  have h1: "tableBuilt (exported scenario)"
    by (rule exported_fields(2))
  have h2: "tableData (exported scenario) \<noteq> []"
    by (rule scenario_rows_nonempty)
  have h3: "has_property ''level'' (hd (tableData (exported scenario))) \<or> ''level'' = ''body''"
    by (simp add: has_property_def row_keys_def)
  have h4: "''level'' = ''score'' \<longrightarrow> (\<forall>r\<in>set (tableData (exported scenario)). score r \<noteq> NaN)"
    by simp
  show ?thesis
    by (rule sortTable_twice [OF h1 h2 h3 h4])
qed

section \<open>Properties of the Hierarchy Rebuilder\<close>

lemma split_parts_no_sep: "x \<in> set (split sep s) \<Longrightarrow> sep \<notin> set x"
proof (induction s arbitrary: x)
  case Nil
  then show ?case by simp
next
  case (Cons c cs)
  show ?case
  proof (cases "c = sep")
    case True
    with Cons show ?thesis by auto
  next
    case False
    obtain p ps where ps: "split sep cs = p # ps"
      using split_nonempty [of sep cs] by (cases "split sep cs") auto
    with Cons.prems False have "x = c # p \<or> x \<in> set ps" by simp
    then show ?thesis
    proof
      assume "x = c # p"
      moreover have "sep \<notin> set p" using Cons.IH [of p] ps by simp
      ultimately show ?thesis using False by simp
    next
      assume "x \<in> set ps"
      then show ?thesis using Cons.IH [of x] ps by simp
    qed
  qed
qed

lemma split_inj: "split sep x = split sep y \<Longrightarrow> x = y"
  by (metis join_split)

lemma parent_of_segments:
  assumes "parent_of x = Some p"
  shows "split CHR ''.'' p = butlast (split CHR ''.'' x)" and "1 < length (split CHR ''.'' x)"
proof -
  let ?parts = "split CHR ''.'' x"
  from assms show l: "1 < length ?parts"
    by (simp add: parent_of_def Let_def split: if_splits)
  from assms l have p: "p = join ''.'' (butlast ?parts)"
    by (simp add: parent_of_def Let_def)
  have "\<forall>y\<in>set (butlast ?parts). CHR ''.'' \<notin> set y"
    using split_parts_no_sep [of _ "CHR ''.''" x] by (meson in_set_butlastD)
  moreover have "butlast ?parts \<noteq> []"
    using l by (cases ?parts rule: rev_cases) auto
  ultimately show "split CHR ''.'' p = butlast ?parts"
    unfolding p by (rule split_join)
qed

lemma parent_of_None: "parent_of x = None \<longleftrightarrow> length (split CHR ''.'' x) = 1"
  using split_nonempty [of "CHR ''.''" x]
  by (cases "split CHR ''.'' x") (auto simp: parent_of_def Let_def)

text \<open>Assignment to a property of the dictionary.\<close>

lemma set_insert_index: "set (insert_index k v d) = insert (k, v) (set d)"
  by (induction k v d rule: insert_index.induct) auto

lemma keys_replace:
  "map fst (map (\<lambda>(k', v'). if k' = k then (k', v) else (k', v')) d) = map fst d"
  by (induction d) auto

lemma set_own_keys: "fst ` set (set_own k v d) = insert k (fst ` set d)"
proof (cases "k \<in> fst ` set d")
  case True
  have "fst ` set (map (\<lambda>(k', v'). if k' = k then (k', v) else (k', v')) d) = fst ` set d"
    using keys_replace [of k v d] by (metis set_map)
  with True show ?thesis by (auto simp: set_own_def)
next
  case False
  then show ?thesis by (auto simp: set_own_def set_insert_index)
qed

lemma distinct_insert_index:
  "k \<notin> fst ` set d \<Longrightarrow> distinct (map fst d) \<Longrightarrow> distinct (map fst (insert_index k v d))"
proof (induction k v d rule: insert_index.induct)
  case (1 k v)
  then show ?case by simp
next
  case (2 k v k' v' d)
  then show ?case
    by (auto simp: set_insert_index)
qed

lemma set_own_distinct:
  assumes "distinct (map fst d)"
  shows "distinct (map fst (set_own k v d))"
proof (cases "k \<in> fst ` set d")
  case True
  then have "set_own k v d = map (\<lambda>(k', v'). if k' = k then (k', v) else (k', v')) d"
    by (simp add: set_own_def)
  then have "map fst (set_own k v d) = map fst d"
    using keys_replace [of k v d] by simp
  with assms show ?thesis by simp
next
  case False
  show ?thesis
  proof (cases "is_array_index k")
    case True
    with False have "set_own k v d = insert_index k v d"
      by (simp add: set_own_def)
    with False assms show ?thesis
      by (simp add: distinct_insert_index)
  next
    case n: False
    with False have "set_own k v d = d @ [(k, v)]"
      by (simp add: set_own_def)
    with False assms show ?thesis
      by auto
  qed
qed

lemma set_own_entries:
  "e \<in> set (set_own k v d) \<Longrightarrow> e = (k, v) \<or> e \<in> set d"
  by (auto simp: set_own_def set_insert_index split: if_splits)

lemma node_of_row_ok:
  "n_id (node_of_row r) = numbering r" "n_parentId (node_of_row r) = parent_of (numbering r)"
  by (simp_all add: node_of_row_def)

lemma dict_ok_set:
  assumes "dict_ok d"
  shows "dict_ok (set_own (numbering r) (node_of_row r) d)"
proof -
  have "distinct (map fst (set_own (numbering r) (node_of_row r) d))"
    using assms by (simp add: dict_ok_def set_own_distinct)
  moreover have "n_id (snd kv) = fst kv \<and> n_parentId (snd kv) = parent_of (fst kv)"
    if "kv \<in> set (set_own (numbering r) (node_of_row r) d)" for kv
  proof -
    from set_own_entries [OF that] show ?thesis
    proof
      assume "kv = (numbering r, node_of_row r)"
      then show ?thesis by (simp add: node_of_row_ok)
    next
      assume "kv \<in> set d"
      with assms show ?thesis by (simp add: dict_ok_def list_all_iff)
    qed
  qed
  ultimately show ?thesis
    by (simp add: dict_ok_def list_all_iff)
qed

lemma foldl_dict:
  "dict_ok (own_properties d) \<Longrightarrow>
     dict_ok (own_properties (foldl (\<lambda>dict r. dict_set (numbering r) (node_of_row r) dict) d data))
     \<and> fst ` set (own_properties (foldl (\<lambda>dict r. dict_set (numbering r) (node_of_row r) dict) d data))
         = fst ` set (own_properties d) \<union> (numbering ` set data - {''__proto__''})"
proof (induction data arbitrary: d)
  case Nil
  then show ?case by simp
next
  case (Cons r data)
  let ?d = "dict_set (numbering r) (node_of_row r) d"
  show ?case
  proof (cases "numbering r = ''__proto__''")
    case True
    then have o: "own_properties ?d = own_properties d"
      by (simp add: dict_set_def)
    with Cons.prems have "dict_ok (own_properties ?d)" by simp
    from Cons.IH [OF this] show ?thesis
      unfolding o using True by auto
  next
    case False
    then have o: "own_properties ?d = set_own (numbering r) (node_of_row r) (own_properties d)"
      by (simp add: dict_set_def)
    from Cons.prems have "dict_ok (own_properties ?d)"
      unfolding o by (rule dict_ok_set)
    from Cons.IH [OF this] show ?thesis
      unfolding o using False by (auto simp: set_own_keys)
  qed
qed

lemma buildNodeDictionary_ok:
  "dict_ok (own_properties (buildNodeDictionary data))"
  "fst ` set (own_properties (buildNodeDictionary data)) = numbering ` set data - {''__proto__''}"
  using foldl_dict [of "\<lparr> own_properties = [], prototype = None \<rparr>" data]
  by (simp_all add: buildNodeDictionary_def dict_ok_def)

lemma add_children_Nil: "add_children [] d = d"
  by (simp add: add_children_def)

lemma add_children_skip:
  assumes "\<forall>kv\<in>set d. attach_to k \<noteq> Some (fst kv)"
  shows "add_children (k # cs) d = add_children cs d"
  unfolding add_children_def using assms by (intro map_cong) auto

lemma add_children_push:
  assumes "attach_to k = Some pid"
  shows "add_children cs (push_child pid k d) = add_children (k # cs) d"
  unfolding add_children_def push_child_def using assms by (auto simp: case_prod_beta)

lemma push_child_keys: "fst ` set (push_child p k d) = fst ` set d"
  by (force simp: push_child_def)

lemma link_node_cases:
  assumes "n_parentId v = parent_of k"
  shows "link_node pr (rc, d) (k, v) =
     (case attach_to k of
        None \<Rightarrow> Inr (rc @ [k], d)
      | Some pid \<Rightarrow>
          if pid \<in> fst ` set d then Inr (rc, push_child pid k d)
          else if inherited_truthy pr pid then Inl TypeError
          else Inr (rc, d))"
  using assms by (simp add: link_node_def attach_to_def split: option.splits)

text \<open>
  The second loop does not throw when every parent id that is not an own property is
  undefined, or falsy, along the prototype chain.
\<close>

lemma link_fold:
  assumes "\<forall>kv\<in>set xs. n_parentId (snd kv) = parent_of (fst kv)"
    and "\<forall>kv\<in>set xs. \<forall>p. attach_to (fst kv) = Some p \<longrightarrow> p \<in> fst ` set d \<or> \<not> inherited_truthy pr p"
  shows "forEach_link pr (rc, d) xs =
           Inr (rc @ filter (\<lambda>c. attach_to c = None) (map fst xs), add_children (map fst xs) d)"
  using assms
proof (induction xs arbitrary: rc d)
  case Nil
  then show ?case by (simp add: add_children_Nil)
next
  case (Cons x xs)
  obtain k v where x: "x = (k, v)" by (cases x)
  from Cons.prems x have pv: "n_parentId v = parent_of k" by simp
  from Cons.prems have rest: "\<forall>kv\<in>set xs. n_parentId (snd kv) = parent_of (fst kv)" by simp
  from Cons.prems have safe:
    "\<forall>kv\<in>set xs. \<forall>p. attach_to (fst kv) = Some p \<longrightarrow> p \<in> fst ` set d \<or> \<not> inherited_truthy pr p"
    by simp
  show ?case
  proof (cases "attach_to k")
    case None
    then have "link_node pr (rc, d) x = Inr (rc @ [k], d)"
      using link_node_cases [OF pv] x by simp
    moreover have "add_children (k # map fst xs) d = add_children (map fst xs) d"
      using None by (intro add_children_skip) simp
    ultimately show ?thesis
      using Cons.IH [OF rest safe, of "rc @ [k]"] None x by simp
  next
    case (Some pid)
    show ?thesis
    proof (cases "pid \<in> fst ` set d")
      case True
      then have "link_node pr (rc, d) x = Inr (rc, push_child pid k d)"
        using link_node_cases [OF pv] x Some by simp
      moreover have "\<forall>kv\<in>set xs. \<forall>p. attach_to (fst kv) = Some p \<longrightarrow>
          p \<in> fst ` set (push_child pid k d) \<or> \<not> inherited_truthy pr p"
        using safe by (simp only: push_child_keys)
      ultimately show ?thesis
        using Cons.IH [OF rest, of "push_child pid k d" rc] Some x
        by (simp add: add_children_push)
    next
      case False
      with Cons.prems(2) x Some have "\<not> inherited_truthy pr pid" by auto
      with False have "link_node pr (rc, d) x = Inr (rc, d)"
        using link_node_cases [OF pv] x Some by simp
      moreover have "add_children (k # map fst xs) d = add_children (map fst xs) d"
        using False Some by (intro add_children_skip) force
      ultimately show ?thesis
        using Cons.IH [OF rest safe, of rc] Some x by simp
    qed
  qed
qed

text \<open>No parent id of the dictionary reaches a truthy inherited value.\<close>

lemma link_result:
  assumes "dict_ok dict"
    and "\<forall>k\<in>set (map fst dict). \<forall>p. attach_to k = Some p \<longrightarrow>
           p \<in> set (map fst dict) \<or> \<not> inherited_truthy pr p"
  shows "forEach_link pr ([], map (\<lambda>(k, v). (k, v\<lparr> n_children := [], n_count := 1 \<rparr>)) dict)
            (map (\<lambda>(k, v). (k, v\<lparr> n_children := [], n_count := 1 \<rparr>)) dict)
         = Inr (root_children dict, linked_dict dict)"
proof -
  let ?d1 = "map (\<lambda>(k, v). (k, v\<lparr> n_children := [], n_count := 1 \<rparr>)) dict"
  have k: "map fst ?d1 = map fst dict"
    by (induction dict) auto
  then have ks: "fst ` set ?d1 = set (map fst dict)"
    by (metis set_map)
  have 1: "\<forall>kv\<in>set ?d1. n_parentId (snd kv) = parent_of (fst kv)"
    using assms(1) by (auto simp: dict_ok_def list_all_iff)
  have "\<forall>c\<in>set (map fst ?d1). \<forall>p. attach_to c = Some p \<longrightarrow>
           p \<in> fst ` set ?d1 \<or> \<not> inherited_truthy pr p"
    unfolding k ks by (rule assms(2))
  then have 2: "\<forall>kv\<in>set ?d1. \<forall>p. attach_to (fst kv) = Some p \<longrightarrow>
           p \<in> fst ` set ?d1 \<or> \<not> inherited_truthy pr p"
    by simp
  from link_fold [OF 1 2, of "[]"]
  have "forEach_link pr ([], ?d1) ?d1
          = Inr (filter (\<lambda>c. attach_to c = None) (map fst dict), add_children (map fst dict) ?d1)"
    unfolding k by simp
  moreover have "add_children (map fst dict) ?d1 = linked_dict dict"
    by (simp add: add_children_def linked_dict_def case_prod_beta)
  ultimately show ?thesis
    by (simp add: root_children_def)
qed

lemma buildHierarchyFromDict_eq:
  assumes "dict_ok (own_properties dict)"
    and "\<forall>k\<in>set (map fst (own_properties dict)). \<forall>p. attach_to k = Some p \<longrightarrow>
           p \<in> set (map fst (own_properties dict)) \<or> \<not> inherited_truthy (prototype dict) p"
  shows "buildHierarchyFromDict dict =
     (case root_trees (own_properties dict) of
        None \<Rightarrow> None
      | Some ts \<Rightarrow> Some (Inr (computeCounts (HTree None ts 0))))"
  unfolding buildHierarchyFromDict_def Let_def link_result [OF assms] root_trees_def by simp

lemma linked_dict_keys: "map fst (linked_dict dict) = map fst dict"
  by (simp add: linked_dict_def comp_def)

lemma linked_dict_ok: "dict_ok dict \<Longrightarrow> heap_ok (linked_dict dict)"
  unfolding heap_ok_def linked_dict_keys
  by (auto simp: dict_ok_def list_all_iff linked_dict_def)

lemma heap_lookup:
  assumes "heap_ok d" "map_of d k = Some v"
  shows "k \<in> fst ` set d" "n_id v = k"
    "n_children v = filter (\<lambda>c. attach_to c = Some k) (map fst d)"
proof -
  from assms(2) have m: "(k, v) \<in> set d" by (rule map_of_SomeD)
  then show "k \<in> fst ` set d" by force
  from assms(1) m show "n_id v = k"
    "n_children v = filter (\<lambda>c. attach_to c = Some k) (map fst d)"
    by (auto simp: heap_ok_def list_all_iff)
qed

lemma heap_lookup_ex:
  assumes "k \<in> fst ` set d"
  shows "\<exists>v. map_of d k = Some v"
  using assms by (metis domD dom_map_of_conv_image_fst)

lemma attach_segments:
  assumes "attach_to c = Some k"
  shows "seg k = butlast (seg c)" "1 < length (seg c)"
proof -
  from assms have "parent_of c = Some k"
    by (auto simp: attach_to_def split: option.splits if_splits)
  then show "seg k = butlast (seg c)" "1 < length (seg c)"
    by (rule parent_of_segments)+
qed

lemma attach_prefix: "attach_to c = Some k \<Longrightarrow> prefix (seg k) (seg c)"
  by (simp add: attach_segments(1) prefixeq_butlast)

lemma attach_length: "attach_to c = Some k \<Longrightarrow> length (seg c) = Suc (length (seg k))"
  using attach_segments [of c k] by simp

lemma depth_bound_ge: "k \<in> fst ` set d \<Longrightarrow> length (seg k) \<le> depth_bound d"
  unfolding depth_bound_def by (induction d) (auto simp: le_max_iff_disj)

lemma list_all2_left: "list_all2 P xs ys \<Longrightarrow> x \<in> set xs \<Longrightarrow> \<exists>y\<in>set ys. P x y"
  by (induction rule: list_all2_induct) auto

lemma list_all2_right: "list_all2 P xs ys \<Longrightarrow> y \<in> set ys \<Longrightarrow> \<exists>x\<in>set xs. P x y"
  by (induction rule: list_all2_induct) auto

lemma those_Some_iff: "those xs = Some ys \<longleftrightarrow> xs = map Some ys"
proof (induction xs arbitrary: ys)
  case Nil
  then show ?case by auto
next
  case (Cons x xs)
  then show ?case
    by (cases x) (auto split: option.splits)
qed

lemma those_map_Some:
  "those (map f cs) = Some ts \<longleftrightarrow> list_all2 (\<lambda>c t. f c = Some t) cs ts"
  unfolding those_Some_iff
  by (auto simp: list_all2_conv_all_nth list_eq_iff_nth_eq)

lemma those_map_ex:
  assumes "\<forall>c\<in>set cs. \<exists>t. f c = Some t"
  shows "\<exists>ts. those (map f cs) = Some ts"
proof -
  have "map f cs = map Some (map (\<lambda>c. the (f c)) cs)"
    using assms by auto
  then show ?thesis
    unfolding those_Some_iff by blast
qed

lemma tree_of_Suc:
  "tree_of (Suc n) d k = Some t \<longleftrightarrow>
     (\<exists>v ts. map_of d k = Some v \<and> list_all2 (\<lambda>c t'. tree_of n d c = Some t') (n_children v) ts
        \<and> t = HTree (Some v) ts (n_count v))"
proof (cases "map_of d k")
  case None
  then show ?thesis by simp
next
  case (Some v)
  show ?thesis
  proof (cases "those (map (tree_of n d) (n_children v))")
    case None
    then have "\<not> list_all2 (\<lambda>c t'. tree_of n d c = Some t') (n_children v) ts" for ts
      using those_map_Some [of "tree_of n d" "n_children v" ts] by simp
    with None Some show ?thesis by simp
  next
    case (Some ts')
    then have "list_all2 (\<lambda>c t'. tree_of n d c = Some t') (n_children v) ts \<longleftrightarrow> ts = ts'" for ts
      using those_map_Some [of "tree_of n d" "n_children v" ts] by auto
    with Some \<open>map_of d k = Some v\<close> show ?thesis by auto
  qed
qed

lemma tree_of_exists:
  assumes "heap_ok d"
  shows "k \<in> fst ` set d \<Longrightarrow> depth_bound d < n + length (seg k) \<Longrightarrow> \<exists>t. tree_of n d k = Some t"
proof (induction n arbitrary: k)
  case 0
  then show ?case
    using depth_bound_ge [of k d] by simp
next
  case (Suc n)
  from heap_lookup_ex [OF Suc.prems(1)] obtain v where v: "map_of d k = Some v" by blast
  have "\<forall>c\<in>set (n_children v). \<exists>t. tree_of n d c = Some t"
  proof
    fix c assume "c \<in> set (n_children v)"
    then have c: "c \<in> fst ` set d" "attach_to c = Some k"
      using heap_lookup(3) [OF assms v] by auto
    from attach_length [OF c(2)] Suc.prems(2) have "depth_bound d < n + length (seg c)"
      by simp
    with c(1) show "\<exists>t. tree_of n d c = Some t" by (rule Suc.IH)
  qed
  from those_map_ex [OF this] obtain ts where "those (map (tree_of n d) (n_children v)) = Some ts"
    by blast
  with v show ?case by simp
qed

lemma node_ids_tree_of:
  assumes "heap_ok d"
  shows "tree_of n d k = Some t \<Longrightarrow> x \<in> set (node_ids t) \<Longrightarrow> x \<in> fst ` set d \<and> prefix (seg k) (seg x)"
proof (induction n arbitrary: k t)
  case 0
  then show ?case by simp
next
  case (Suc n)
  from Suc.prems(1) obtain v ts where v: "map_of d k = Some v"
    and ts: "list_all2 (\<lambda>c t'. tree_of n d c = Some t') (n_children v) ts"
    and t: "t = HTree (Some v) ts (n_count v)"
    unfolding tree_of_Suc by blast
  from Suc.prems(2) t consider "x = n_id v" | t' where "t' \<in> set ts" "x \<in> set (node_ids t')"
    by auto
  then show ?case
  proof cases
    case 1
    then show ?thesis using heap_lookup(1,2) [OF assms v] by simp
  next
    case 2
    from list_all2_right [OF ts 2(1)] obtain c where c: "c \<in> set (n_children v)" "tree_of n d c = Some t'"
      by blast
    from Suc.IH [OF c(2) 2(2)] have "x \<in> fst ` set d" "prefix (seg c) (seg x)"
      by simp_all
    moreover have "prefix (seg k) (seg c)"
      using c(1) heap_lookup(3) [OF assms v] by (auto intro: attach_prefix)
    ultimately show ?thesis
      by (auto intro: prefix_order.trans)
  qed
qed

lemma node_ids_head:
  assumes "tree_of n d k = Some t" "heap_ok d"
  shows "k \<in> set (node_ids t)"
proof (cases n)
  case 0
  with assms show ?thesis by simp
next
  case (Suc m)
  with assms(1) have "tree_of (Suc m) d k = Some t" by simp
  then obtain v ts where v: "map_of d k = Some v" and t: "t = HTree (Some v) ts (n_count v)"
    unfolding tree_of_Suc by blast
  from heap_lookup(2) [OF assms(2) v] t show ?thesis by simp
qed

lemma node_ids_children:
  assumes "heap_ok d"
  shows "tree_of n d k = Some t \<Longrightarrow> x \<in> set (node_ids t) \<Longrightarrow> attach_to c = Some x \<Longrightarrow>
           c \<in> fst ` set d \<Longrightarrow> c \<in> set (node_ids t)"
proof (induction n arbitrary: k t)
  case 0
  then show ?case by simp
next
  case (Suc n)
  from Suc.prems(1) obtain v ts where v: "map_of d k = Some v"
    and ts: "list_all2 (\<lambda>c t'. tree_of n d c = Some t') (n_children v) ts"
    and t: "t = HTree (Some v) ts (n_count v)"
    unfolding tree_of_Suc by blast
  from Suc.prems(2) t consider "x = n_id v" | t' where "t' \<in> set ts" "x \<in> set (node_ids t')"
    by auto
  then show ?case
  proof cases
    case 1
    then have "x = k" using heap_lookup(2) [OF assms v] by simp
    with Suc.prems(3,4) have "c \<in> set (n_children v)"
      using heap_lookup(3) [OF assms v] by auto
    from list_all2_left [OF ts this] obtain t' where t': "t' \<in> set ts" "tree_of n d c = Some t'"
      by blast
    from node_ids_head [OF t'(2) assms] t'(1) t show ?thesis by auto
  next
    case 2
    from list_all2_right [OF ts 2(1)] obtain c' where c': "tree_of n d c' = Some t'"
      by blast
    from Suc.IH [OF c' 2(2) Suc.prems(3,4)] 2(1) t show ?thesis by auto
  qed
qed

lemma distinct_concat_by_key:
  "list_all2 (\<lambda>k xs. distinct xs \<and> (\<forall>x\<in>set xs. g x = k)) ks xss \<Longrightarrow> distinct ks \<Longrightarrow>
     distinct (concat xss)"
proof (induction rule: list_all2_induct)
  case Nil
  then show ?case by simp
next
  case (Cons k ks xs xss)
  have "set xs \<inter> \<Union> (set ` set xss) = {}"
  proof (rule ccontr)
    assume "set xs \<inter> \<Union> (set ` set xss) \<noteq> {}"
    then obtain x ys where x: "x \<in> set xs" "ys \<in> set xss" "x \<in> set ys" by auto
    from list_all2_right [OF Cons.hyps(2) x(2)] obtain k' where "k' \<in> set ks" "\<forall>y\<in>set ys. g y = k'"
      by blast
    with x Cons.hyps(1) Cons.prems show False by auto
  qed
  with Cons show ?case by simp
qed

lemma take_prefix_eq:
  "prefix ys xs \<Longrightarrow> take (length ys) xs = ys"
  by (auto simp: prefix_def)

lemma distinct_node_ids:
  assumes "heap_ok d"
  shows "tree_of n d k = Some t \<Longrightarrow> distinct (node_ids t)"
proof (induction n arbitrary: k t)
  case 0
  then show ?case by simp
next
  case (Suc n)
  from Suc.prems(1) obtain v ts where v: "map_of d k = Some v"
    and ts: "list_all2 (\<lambda>c t'. tree_of n d c = Some t') (n_children v) ts"
    and t: "t = HTree (Some v) ts (n_count v)"
    unfolding tree_of_Suc by blast
  let ?cs = "n_children v"
  have cs: "?cs = filter (\<lambda>c. attach_to c = Some k) (map fst d)"
    by (rule heap_lookup(3) [OF assms v])
  have dcs: "distinct ?cs"
    using assms by (simp add: cs heap_ok_def)
  let ?g = "\<lambda>x. take (Suc (length (seg k))) (seg x)"
  have "list_all2 (\<lambda>s xs. distinct xs \<and> (\<forall>x\<in>set xs. ?g x = s)) (map seg ?cs) (map node_ids ts)"
    unfolding list_all2_map1 list_all2_map2
  proof (rule list.rel_mono_strong [OF ts])
    fix c t' assume ct: "tree_of n d c = Some t'"
    assume "c \<in> set ?cs"
    then have a: "attach_to c = Some k" by (simp add: cs)
    have "?g x = seg c" if "x \<in> set (node_ids t')" for x
    proof -
      from node_ids_tree_of [OF assms ct that] have "prefix (seg c) (seg x)" by simp
      from take_prefix_eq [OF this] show ?thesis
        by (simp add: attach_length [OF a])
    qed
    with Suc.IH [OF ct] show "distinct (node_ids t') \<and> (\<forall>x\<in>set (node_ids t'). ?g x = seg c)"
      by simp
  qed
  moreover have "distinct (map seg ?cs)"
    using dcs by (simp add: distinct_map inj_on_def split_inj)
  ultimately have dc: "distinct (concat (map node_ids ts))"
    by (rule distinct_concat_by_key)
  have "n_id v \<notin> set (concat (map node_ids ts))"
  proof
    assume "n_id v \<in> set (concat (map node_ids ts))"
    then obtain t' where t': "t' \<in> set ts" "n_id v \<in> set (node_ids t')" by auto
    from list_all2_right [OF ts t'(1)] obtain c where c: "c \<in> set ?cs" "tree_of n d c = Some t'"
      by blast
    from node_ids_tree_of [OF assms c(2) t'(2)] have "prefix (seg c) (seg (n_id v))" by simp
    then have "length (seg c) \<le> length (seg k)"
      using heap_lookup(2) [OF assms v] by (simp add: prefix_length_le)
    moreover from c(1) have "length (seg c) = Suc (length (seg k))"
      by (simp add: cs attach_length)
    ultimately show False by simp
  qed
  with dc t show ?case by simp
qed

lemma tree_of_id:
  assumes "tree_of n d k = Some t" "heap_ok d"
  shows "t_id t = Some k"
proof (cases n)
  case 0
  with assms show ?thesis by simp
next
  case (Suc m)
  with assms(1) have "tree_of (Suc m) d k = Some t" by simp
  then obtain v ts where v: "map_of d k = Some v" and t: "t = HTree (Some v) ts (n_count v)"
    unfolding tree_of_Suc by blast
  from heap_lookup(2) [OF assms(2) v] t show ?thesis by (simp add: t_id_def)
qed

lemma children_ids:
  assumes "list_all2 (\<lambda>c t'. tree_of n d c = Some t') cs ts" "heap_ok d"
  shows "map t_id ts = map Some cs"
  using assms(1)
proof (induction rule: list_all2_induct)
  case Nil
  then show ?case by simp
next
  case (Cons c cs t' ts)
  from tree_of_id [OF Cons.hyps(1) assms(2)] Cons.IH show ?case by simp
qed

lemma subtrees_tree_of:
  assumes "heap_ok d"
  shows "tree_of n d k = Some t \<Longrightarrow> x \<in> set (subtrees t) \<Longrightarrow>
     \<exists>kx v. map_of d kx = Some v \<and> t_id x = Some kx \<and> map t_id (t_children x) = map Some (n_children v)"
proof (induction n arbitrary: k t)
  case 0
  then show ?case by simp
next
  case (Suc n)
  from Suc.prems(1) obtain v ts where v: "map_of d k = Some v"
    and ts: "list_all2 (\<lambda>c t'. tree_of n d c = Some t') (n_children v) ts"
    and t: "t = HTree (Some v) ts (n_count v)"
    unfolding tree_of_Suc by blast
  from Suc.prems(2) t consider "x = t" | t' where "t' \<in> set ts" "x \<in> set (subtrees t')"
    by auto
  then show ?case
  proof cases
    case 1
    have "t_id x = Some k"
      using 1 t heap_lookup(2) [OF assms v] by (simp add: t_id_def)
    moreover have "map t_id (t_children x) = map Some (n_children v)"
      using 1 t children_ids [OF ts assms] by simp
    ultimately show ?thesis using v by blast
  next
    case 2
    from list_all2_right [OF ts 2(1)] obtain c where "tree_of n d c = Some t'" by blast
    from Suc.IH [OF this 2(2)] show ?thesis .
  qed
qed

lemma ids_of_subtrees:
  assumes "heap_ok d"
  shows "tree_of n d k = Some t \<Longrightarrow> map t_id (subtrees t) = map Some (node_ids t)"
proof (induction n arbitrary: k t)
  case 0
  then show ?case by simp
next
  case (Suc n)
  from Suc.prems(1) obtain v ts where v: "map_of d k = Some v"
    and ts: "list_all2 (\<lambda>c t'. tree_of n d c = Some t') (n_children v) ts"
    and t: "t = HTree (Some v) ts (n_count v)"
    unfolding tree_of_Suc by blast
  have "map t_id (subtrees t') = map Some (node_ids t')" if "t' \<in> set ts" for t'
  proof -
    from list_all2_right [OF ts that] obtain c where "tree_of n d c = Some t'" by blast
    then show ?thesis by (rule Suc.IH)
  qed
  then have "map (\<lambda>t'. map t_id (subtrees t')) ts = map (\<lambda>t'. map Some (node_ids t')) ts"
    by (intro map_cong) simp_all
  then have c: "concat (map (\<lambda>t'. map t_id (subtrees t')) ts) = concat (map (\<lambda>t'. map Some (node_ids t')) ts)"
    by (rule arg_cong)
  have "map t_id (subtrees t) = t_id t # concat (map (\<lambda>t'. map t_id (subtrees t')) ts)"
    using t by (simp add: map_concat comp_def)
  also have "\<dots> = Some (n_id v) # concat (map (\<lambda>t'. map Some (node_ids t')) ts)"
    unfolding c using t by (simp add: t_id_def)
  also have "\<dots> = map Some (node_ids t)"
    using t by (simp add: map_concat comp_def)
  finally show ?case .
qed

lemma root_children_keys: "set (root_children dict) \<subseteq> fst ` set (linked_dict dict)"
proof -
  have "set (root_children dict) \<subseteq> set (map fst dict)"
    by (auto simp: root_children_def)
  also have "\<dots> = set (map fst (linked_dict dict))"
    by (simp only: linked_dict_keys)
  also have "\<dots> = fst ` set (linked_dict dict)"
    by (rule set_map)
  finally show ?thesis .
qed

lemma root_trees_exist:
  assumes "dict_ok dict"
  shows "\<exists>ts. root_trees dict = Some ts"
  unfolding root_trees_def
proof (rule those_map_ex, rule ballI)
  fix c assume "c \<in> set (root_children dict)"
  then have "c \<in> fst ` set (linked_dict dict)"
    using root_children_keys by blast
  then show "\<exists>t. tree_of (Suc (depth_bound (linked_dict dict))) (linked_dict dict) c = Some t"
    by (rule tree_of_exists [OF linked_dict_ok [OF assms]]) simp
qed

lemma root_trees_all2:
  "root_trees dict = Some ts \<longleftrightarrow>
     list_all2 (\<lambda>c t. tree_of (Suc (depth_bound (linked_dict dict))) (linked_dict dict) c = Some t)
       (root_children dict) ts"
  unfolding root_trees_def by (rule those_map_Some)

lemma buildHierarchy_root:
  assumes "dict_ok (own_properties dict)"
    and "\<forall>k\<in>set (map fst (own_properties dict)). \<forall>p. attach_to k = Some p \<longrightarrow>
           p \<in> set (map fst (own_properties dict)) \<or> \<not> inherited_truthy (prototype dict) p"
    and "root_trees (own_properties dict) = Some ts"
  shows "buildHierarchyFromDict dict = Some (Inr (computeCounts (HTree None ts 0)))"
  using assms(3) by (simp add: buildHierarchyFromDict_eq [OF assms(1,2)])

text \<open>computeCounts changes the counts only.\<close>

lemma computeCounts_node: "t_node (computeCounts t) = t_node t"
  by (cases t) (simp add: Let_def)

lemma computeCounts_id: "t_id (computeCounts t) = t_id t"
  by (simp add: t_id_def computeCounts_node)

lemma computeCounts_children: "t_children (computeCounts t) = map computeCounts (t_children t)"
  by (cases t) (simp add: Let_def)

lemma computeCounts_node_ids: "node_ids (computeCounts t) = node_ids t"
proof (induction t)
  case (HTree v ts c)
  then have "map node_ids (map computeCounts ts) = map node_ids ts"
    by simp
  then show ?case
    by (simp add: Let_def del: map_map)
qed

lemma computeCounts_subtrees: "subtrees (computeCounts t) = map computeCounts (subtrees t)"
proof (induction t)
  case (HTree v ts c)
  have "map (\<lambda>t. subtrees (computeCounts t)) ts = map (\<lambda>t. map computeCounts (subtrees t)) ts"
    by (intro map_cong) (simp_all add: HTree)
  then have e: "concat (map (\<lambda>t. subtrees (computeCounts t)) ts)
      = concat (map (\<lambda>t. map computeCounts (subtrees t)) ts)"
    by (rule arg_cong)
  have "subtrees (computeCounts (HTree v ts c))
      = computeCounts (HTree v ts c) # concat (map (\<lambda>t. subtrees (computeCounts t)) ts)"
    by (cases "ts = []") (simp_all add: Let_def comp_def)
  also have "\<dots> = computeCounts (HTree v ts c) # concat (map (\<lambda>t. map computeCounts (subtrees t)) ts)"
    unfolding e ..
  also have "\<dots> = map computeCounts (subtrees (HTree v ts c))"
    by (simp add: map_concat comp_def)
  finally show ?case .
qed

lemma leaves_computeCounts: "leaves (computeCounts t) = leaves t"
proof (induction t)
  case (HTree v ts c)
  then have "map leaves (map computeCounts ts) = map leaves ts"
    by simp
  then show ?case
    by (simp add: Let_def del: map_map)
qed

lemma computeCounts_count: "t_count (computeCounts t) = leaves t"
proof (induction t)
  case (HTree v ts c)
  then have "map t_count (map computeCounts ts) = map leaves ts"
    by simp
  then show ?case
    by (simp add: Let_def del: map_map)
qed

lemma computeCounts_local:
  "t_count (computeCounts t) =
     (if t_children (computeCounts t) = [] then 1
      else sum_list (map t_count (t_children (computeCounts t))))"
  by (cases t) (simp add: Let_def)

lemma node_ids_origin:
  assumes "heap_ok d"
  shows "tree_of n d k = Some t \<Longrightarrow> x \<in> set (node_ids t) \<Longrightarrow>
           x = k \<or> (\<exists>p\<in>fst ` set d. attach_to x = Some p)"
proof (induction n arbitrary: k t)
  case 0
  then show ?case by simp
next
  case (Suc n)
  from Suc.prems(1) obtain v ts where v: "map_of d k = Some v"
    and ts: "list_all2 (\<lambda>c t'. tree_of n d c = Some t') (n_children v) ts"
    and t: "t = HTree (Some v) ts (n_count v)"
    unfolding tree_of_Suc by blast
  from Suc.prems(2) t consider "x = n_id v" | t' where "t' \<in> set ts" "x \<in> set (node_ids t')"
    by auto
  then show ?case
  proof cases
    case 1
    then show ?thesis using heap_lookup(2) [OF assms v] by simp
  next
    case 2
    from list_all2_right [OF ts 2(1)] obtain c where c: "c \<in> set (n_children v)" "tree_of n d c = Some t'"
      by blast
    from Suc.IH [OF c(2) 2(2)] show ?thesis
    proof
      assume "x = c"
      with c(1) have "attach_to x = Some k"
        using heap_lookup(3) [OF assms v] by simp
      moreover have "k \<in> fst ` set d"
        by (rule heap_lookup(1) [OF assms v])
      ultimately show ?thesis by blast
    next
      assume "\<exists>p\<in>fst ` set d. attach_to x = Some p"
      then show ?thesis by blast
    qed
  qed
qed

lemma keys_image: "fst ` set (linked_dict dict) = set (map fst dict)"
  using linked_dict_keys [of dict] by (metis set_map)

lemma root_member:
  assumes "root_trees dict = Some ts" "x \<in> set (concat (map node_ids ts))"
  obtains c t where "c \<in> set (root_children dict)" "t \<in> set ts" "x \<in> set (node_ids t)"
    "tree_of (Suc (depth_bound (linked_dict dict))) (linked_dict dict) c = Some t"
proof -
  from assms(2) obtain t where t: "t \<in> set ts" "x \<in> set (node_ids t)" by auto
  from assms(1) have "list_all2 (\<lambda>c t. tree_of (Suc (depth_bound (linked_dict dict))) (linked_dict dict) c = Some t)
       (root_children dict) ts"
    by (simp add: root_trees_all2)
  from list_all2_right [OF this t(1)] t that show ?thesis by blast
qed

lemma root_ids_keys:
  assumes "dict_ok dict" "root_trees dict = Some ts" "x \<in> set (concat (map node_ids ts))"
  shows "x \<in> set (map fst dict)"
proof -
  from root_member [OF assms(2,3)] obtain c t where
    "x \<in> set (node_ids t)"
    "tree_of (Suc (depth_bound (linked_dict dict))) (linked_dict dict) c = Some t"
    by blast
  from node_ids_tree_of [OF linked_dict_ok [OF assms(1)] this(2,1)] show ?thesis
    by (simp only: keys_image)
qed

lemma root_ids_origin:
  assumes "dict_ok dict" "root_trees dict = Some ts" "x \<in> set (concat (map node_ids ts))"
  shows "attach_to x = None \<or> (\<exists>p\<in>set (map fst dict). attach_to x = Some p)"
proof -
  from root_member [OF assms(2,3)] obtain c t where c: "c \<in> set (root_children dict)"
    "x \<in> set (node_ids t)"
    "tree_of (Suc (depth_bound (linked_dict dict))) (linked_dict dict) c = Some t"
    by blast
  from node_ids_origin [OF linked_dict_ok [OF assms(1)] c(3,2)]
  have "x = c \<or> (\<exists>p\<in>set (map fst dict). attach_to x = Some p)"
    by (simp only: keys_image)
  moreover from c(1) have "attach_to c = None"
    by (simp add: root_children_def)
  ultimately show ?thesis by blast
qed

lemma root_ids_complete:
  assumes ok: "dict_ok dict" and ts: "root_trees dict = Some ts"
    and closed: "\<forall>c\<in>set (map fst dict). \<forall>p. attach_to c = Some p \<longrightarrow> p \<in> set (map fst dict)"
  shows "c \<in> set (map fst dict) \<Longrightarrow> c \<in> set (concat (map node_ids ts))"
proof (induction c rule: measure_induct_rule [where f = "\<lambda>c. length (seg c)"])
  case (less c)
  let ?d = "linked_dict dict" and ?n = "Suc (depth_bound (linked_dict dict))"
  have h: "heap_ok ?d" by (rule linked_dict_ok [OF ok])
  from ts have all2: "list_all2 (\<lambda>c t. tree_of ?n ?d c = Some t) (root_children dict) ts"
    by (simp add: root_trees_all2)
  show ?case
  proof (cases "attach_to c")
    case None
    with less.prems have "c \<in> set (root_children dict)"
      by (simp add: root_children_def)
    from list_all2_left [OF all2 this] obtain t where t: "t \<in> set ts" "tree_of ?n ?d c = Some t"
      by blast
    from node_ids_head [OF t(2) h] t(1) show ?thesis by auto
  next
    case (Some p)
    with closed less.prems have p: "p \<in> set (map fst dict)" by blast
    have "length (seg p) < length (seg c)"
      using attach_length [OF Some] by simp
    from less.IH [OF this p] have "p \<in> set (concat (map node_ids ts))" .
    from root_member [OF ts this] obtain r t where t: "t \<in> set ts" "p \<in> set (node_ids t)"
      "tree_of ?n ?d r = Some t"
      by blast
    have "c \<in> fst ` set ?d"
      using less.prems by (simp only: keys_image)
    from node_ids_children [OF h t(3,2) Some this] t(1) show ?thesis by auto
  qed
qed

lemma root_ids_distinct:
  assumes ok: "dict_ok dict" and ts: "root_trees dict = Some ts"
    and ne: "\<forall>c\<in>set (map fst dict). parent_of c \<noteq> Some []"
  shows "distinct (concat (map node_ids ts))"
proof -
  let ?d = "linked_dict dict" and ?n = "Suc (depth_bound (linked_dict dict))"
  have h: "heap_ok ?d" by (rule linked_dict_ok [OF ok])
  from ts have all2: "list_all2 (\<lambda>c t. tree_of ?n ?d c = Some t) (root_children dict) ts"
    by (simp add: root_trees_all2)
  let ?g = "\<lambda>x. take (Suc 0) (seg x)"
  have "list_all2 (\<lambda>s xs. distinct xs \<and> (\<forall>x\<in>set xs. ?g x = s))
          (map seg (root_children dict)) (map node_ids ts)"
    unfolding list_all2_map1 list_all2_map2
  proof (rule list.rel_mono_strong [OF all2])
    fix c t assume c: "c \<in> set (root_children dict)" and ct: "tree_of ?n ?d c = Some t"
    from c have k: "c \<in> set (map fst dict)" and a: "attach_to c = None"
      by (simp_all add: root_children_def)
    from a ne k have "parent_of c = None"
      by (auto simp: attach_to_def split: option.splits if_splits)
    then have l: "length (seg c) = Suc 0"
      by (simp add: parent_of_None)
    have "?g x = seg c" if "x \<in> set (node_ids t)" for x
    proof -
      from node_ids_tree_of [OF h ct that] have "prefix (seg c) (seg x)" by simp
      from take_prefix_eq [OF this] show ?thesis by (simp add: l)
    qed
    with distinct_node_ids [OF h ct]
    show "distinct (node_ids t) \<and> (\<forall>x\<in>set (node_ids t). ?g x = seg c)"
      by simp
  qed
  moreover have "distinct (map seg (root_children dict))"
    using ok by (simp add: distinct_map inj_on_def split_inj root_children_def dict_ok_def)
  ultimately show ?thesis
    by (rule distinct_concat_by_key)
qed

lemma root_children_ids:
  assumes "dict_ok dict" "root_trees dict = Some ts"
  shows "map t_id ts = map Some (root_children dict)"
proof -
  from assms(2) have "list_all2 (\<lambda>c t. tree_of (Suc (depth_bound (linked_dict dict))) (linked_dict dict) c = Some t)
       (root_children dict) ts"
    by (simp add: root_trees_all2)
  then show ?thesis
    by (rule children_ids [OF _ linked_dict_ok [OF assms(1)]])
qed

lemma root_subtrees_ids:
  assumes "dict_ok dict" "root_trees dict = Some ts"
  shows "map t_id (concat (map subtrees ts)) = map Some (concat (map node_ids ts))"
proof -
  have "map t_id (subtrees t) = map Some (node_ids t)" if "t \<in> set ts" for t
  proof -
    from root_member [OF assms(2), of "hd (node_ids t)"] assms(2)
    have "list_all2 (\<lambda>c t. tree_of (Suc (depth_bound (linked_dict dict))) (linked_dict dict) c = Some t)
       (root_children dict) ts"
      by (simp add: root_trees_all2)
    from list_all2_right [OF this that] obtain c where
      "tree_of (Suc (depth_bound (linked_dict dict))) (linked_dict dict) c = Some t" by blast
    then show ?thesis
      by (rule ids_of_subtrees [OF linked_dict_ok [OF assms(1)]])
  qed
  then have "map (\<lambda>t. map t_id (subtrees t)) ts = map (\<lambda>t. map Some (node_ids t)) ts"
    by (intro map_cong) simp_all
  then have "concat (map (\<lambda>t. map t_id (subtrees t)) ts) = concat (map (\<lambda>t. map Some (node_ids t)) ts)"
    by (rule arg_cong)
  then show ?thesis
    by (simp add: map_concat comp_def)
qed

lemma root_subtree_children:
  assumes "dict_ok dict" "root_trees dict = Some ts" "x \<in> set (concat (map subtrees ts))"
    "t_id x = Some p"
  shows "map t_id (t_children x) = map Some (filter (\<lambda>c. attach_to c = Some p) (map fst dict))"
proof -
  let ?d = "linked_dict dict"
  have h: "heap_ok ?d" by (rule linked_dict_ok [OF assms(1)])
  from assms(3) obtain t where t: "t \<in> set ts" "x \<in> set (subtrees t)" by auto
  from assms(2) have "list_all2 (\<lambda>c t. tree_of (Suc (depth_bound ?d)) ?d c = Some t) (root_children dict) ts"
    by (simp add: root_trees_all2)
  from list_all2_right [OF this t(1)] obtain c where c: "tree_of (Suc (depth_bound ?d)) ?d c = Some t"
    by blast
  from subtrees_tree_of [OF h c t(2)] obtain kx v where
    v: "map_of ?d kx = Some v" "t_id x = Some kx" "map t_id (t_children x) = map Some (n_children v)"
    by blast
  from v(2) assms(4) have "kx = p" by simp
  with heap_lookup(3) [OF h v(1)] v(3) show ?thesis
    by (simp add: linked_dict_keys)
qed

lemma numbering_make_row: "numbering (make_row ns c) = numberingString ns"
  by (simp add: make_row_def)

lemma numbering_preorder:
  "map numbering (preorder_rows p k comments) = map numberingString (preorder_paths p k comments)"
  by (induction p k comments rule: preorder_rows.induct) (simp_all add: numbering_make_row)

lemma paths_shape:
  "q \<in> set (preorder_paths p k comments) \<Longrightarrow> \<exists>j ns. q = p @ j # ns \<and> k < j"
proof (induction p k comments rule: preorder_paths.induct)
  case (1 p k)
  then show ?case by simp
next
  case (2 p k rest)
  then show ?case by simp
next
  case (3 p k c rest)
  from "3.prems" have "q = p @ [Suc k] \<or> q \<in> set (preorder_paths p (Suc k) rest)" by simp
  then show ?case
  proof
    assume "q = p @ [Suc k]"
    then show ?thesis by blast
  next
    assume "q \<in> set (preorder_paths p (Suc k) rest)"
    from "3.IH" [OF this] obtain j ns where "q = p @ j # ns" "Suc k < j" by blast
    then have "q = p @ j # ns \<and> k < j" by simp
    then show ?thesis by blast
  qed
next
  case (4 p k c children rest)
  from "4.prems" consider "q = p @ [Suc k]" | "q \<in> set (preorder_paths (p @ [Suc k]) 0 children)"
    | "q \<in> set (preorder_paths p (Suc k) rest)" by auto
  then show ?case
  proof cases
    case 1
    then show ?thesis by blast
  next
    case 2
    from "4.IH"(1) [OF 2] obtain j ns where "q = (p @ [Suc k]) @ j # ns" by blast
    then have "q = p @ Suc k # (j # ns) \<and> k < Suc k" by simp
    then show ?thesis by blast
  next
    case 3
    from "4.IH"(2) [OF 3] obtain j ns where "q = p @ j # ns" "Suc k < j" by blast
    then have "q = p @ j # ns \<and> k < j" by simp
    then show ?thesis by blast
  qed
qed

lemma paths_distinct: "distinct (preorder_paths p k comments)"
proof (induction p k comments rule: preorder_paths.induct)
  case (1 p k)
  then show ?case by simp
next
  case (2 p k rest)
  then show ?case by simp
next
  case (3 p k c rest)
  have "p @ [Suc k] \<notin> set (preorder_paths p (Suc k) rest)"
    using paths_shape [of "p @ [Suc k]" p "Suc k" rest] by auto
  with 3 show ?case by simp
next
  case (4 p k c children rest)
  have a: "p @ [Suc k] \<notin> set (preorder_paths p (Suc k) rest)"
    using paths_shape [of "p @ [Suc k]" p "Suc k" rest] by auto
  have b: "p @ [Suc k] \<notin> set (preorder_paths (p @ [Suc k]) 0 children)"
    using paths_shape [of "p @ [Suc k]" "p @ [Suc k]" 0 children] by auto
  have c: "set (preorder_paths (p @ [Suc k]) 0 children) \<inter> set (preorder_paths p (Suc k) rest) = {}"
  proof (rule ccontr)
    assume "\<not> ?thesis"
    then obtain q where q: "q \<in> set (preorder_paths (p @ [Suc k]) 0 children)"
      "q \<in> set (preorder_paths p (Suc k) rest)" by auto
    from paths_shape [OF q(1)] obtain j ns where 1: "q = (p @ [Suc k]) @ j # ns" by blast
    from paths_shape [OF q(2)] obtain j' ns' where 2: "q = p @ j' # ns'" "Suc k < j'" by blast
    from 1 2 show False by simp
  qed
  from 4 a b c show ?case by simp
qed

lemma paths_closed:
  "q \<in> set (preorder_paths p k comments) \<Longrightarrow>
     length q = Suc (length p) \<or> butlast q \<in> set (preorder_paths p k comments)"
proof (induction p k comments rule: preorder_paths.induct)
  case (1 p k)
  then show ?case by simp
next
  case (2 p k rest)
  then show ?case by simp
next
  case (3 p k c rest)
  then show ?case by auto
next
  case (4 p k c children rest)
  from "4.prems" consider "q = p @ [Suc k]" | "q \<in> set (preorder_paths (p @ [Suc k]) 0 children)"
    | "q \<in> set (preorder_paths p (Suc k) rest)" by auto
  then show ?case
  proof cases
    case 1
    then show ?thesis by simp
  next
    case 2
    from "4.IH"(1) [OF 2] show ?thesis
    proof
      assume l: "length q = Suc (length (p @ [Suc k]))"
      from paths_shape [OF 2] obtain j ns where q: "q = (p @ [Suc k]) @ j # ns" by blast
      with l have "ns = []" by simp
      with q have "butlast q = p @ [Suc k]" by (simp add: butlast_append)
      then show ?thesis by simp
    next
      assume "butlast q \<in> set (preorder_paths (p @ [Suc k]) 0 children)"
      then show ?thesis by simp
    qed
  next
    case 3
    from "4.IH"(2) [OF 3] show ?thesis by auto
  qed
qed

lemma numberingString_inj:
  assumes "numberingString ns = numberingString ms" "ns \<noteq> []" "ms \<noteq> []"
  shows "ns = ms"
proof -
  from assms have "map (\<lambda>n. Num (int n)) ns = map (\<lambda>n. Num (int n)) ms"
    by (metis parse_numberingString)
  moreover have "inj (\<lambda>n. Num (int n))"
    by (simp add: inj_on_def)
  ultimately show ?thesis
    by (simp add: inj_map_eq_map)
qed

lemma join_nonempty: "xs \<noteq> [] \<Longrightarrow> hd xs \<noteq> [] \<Longrightarrow> join sep xs \<noteq> []"
  by (induction sep xs rule: join.induct) auto

lemma numberingString_nonempty: "ns \<noteq> [] \<Longrightarrow> numberingString ns \<noteq> []"
  unfolding numberingString_decimal
  by (rule join_nonempty) (simp_all add: decimal_nonempty hd_map)

lemma parent_of_numberingString:
  assumes "q \<noteq> []"
  shows "parent_of (numberingString q) =
     (if 1 < length q then Some (numberingString (butlast q)) else None)"
proof -
  have s: "split CHR ''.'' (numberingString q) = map decimal q"
    by (rule split_numberingString [OF assms])
  have "numberingString (butlast q) = join ''.'' (butlast (map decimal q))"
    by (simp add: numberingString_decimal map_butlast)
  then show ?thesis
    unfolding parent_of_def Let_def s by simp
qed

lemma attach_numberingString:
  assumes "q \<noteq> []"
  shows "attach_to (numberingString q) =
     (if 1 < length q then Some (numberingString (butlast q)) else None)"
proof (cases "1 < length q")
  case True
  then have "butlast q \<noteq> []"
    by (cases q rule: rev_cases) auto
  from numberingString_nonempty [OF this] True assms show ?thesis
    by (simp add: attach_to_def parent_of_numberingString)
next
  case False
  with assms show ?thesis
    by (simp add: attach_to_def parent_of_numberingString)
qed

text \<open>The facts about a table produced by the Flattener that the Rebuilder relies on.\<close>

lemma flattener_table:
  assumes "rows = buildTableData comments [] []"
  shows "distinct (map numbering rows)"
    and "\<forall>c\<in>numbering ` set rows. \<forall>p. attach_to c = Some p \<longrightarrow> p \<in> numbering ` set rows"
    and "\<forall>c\<in>numbering ` set rows. parent_of c \<noteq> Some []"
proof -
  let ?P = "preorder_paths [] 0 comments"
  have m: "map numbering rows = map numberingString ?P"
    using assms by (simp add: flatten_preorder numbering_preorder del: buildTableData.simps)
  have ne: "q \<noteq> []" if "q \<in> set ?P" for q
    using paths_shape [OF that] by auto
  show "distinct (map numbering rows)"
    unfolding m using paths_distinct [of "[]" 0 comments] ne
    by (auto simp: distinct_map inj_on_def dest: numberingString_inj)
  have s: "numbering ` set rows = numberingString ` set ?P"
    using m by (metis set_map)
  show "\<forall>c\<in>numbering ` set rows. \<forall>p. attach_to c = Some p \<longrightarrow> p \<in> numbering ` set rows"
    unfolding s
  proof (intro ballI allI impI)
    fix c p assume c: "c \<in> numberingString ` set ?P" and a: "attach_to c = Some p"
    from c obtain q where q: "q \<in> set ?P" "c = numberingString q" by auto
    from a q ne [OF q(1)] have l: "1 < length q" and p: "p = numberingString (butlast q)"
      by (auto simp: attach_numberingString split: if_splits)
    from paths_closed [OF q(1)] l have "butlast q \<in> set ?P" by simp
    with p show "p \<in> numberingString ` set ?P" by simp
  qed
  show "\<forall>c\<in>numbering ` set rows. parent_of c \<noteq> Some []"
    unfolding s
  proof
    fix c assume "c \<in> numberingString ` set ?P"
    then obtain q where q: "q \<in> set ?P" "c = numberingString q" by auto
    show "parent_of c \<noteq> Some []"
    proof (cases "1 < length q")
      case True
      then have "butlast q \<noteq> []" by (cases q rule: rev_cases) auto
      from numberingString_nonempty [OF this] q ne [OF q(1)] show ?thesis
        by (simp add: parent_of_numberingString)
    next
      case False
      with q ne [OF q(1)] show ?thesis
        by (simp add: parent_of_numberingString)
    qed
  qed
qed

lemma numbering_ok_parent:
  assumes "numbering_ok s" "parent_of s = Some p"
  shows "p \<noteq> []"
proof -
  let ?parts = "split CHR ''.'' s"
  from assms(2) have l: "1 < length ?parts" and p: "p = join ''.'' (butlast ?parts)"
    by (auto simp: parent_of_def Let_def split: if_splits)
  from l have b: "butlast ?parts \<noteq> []"
    by (cases ?parts rule: rev_cases) auto
  then have "hd (butlast ?parts) \<in> set ?parts"
    by (meson hd_in_set in_set_butlastD)
  with assms(1) have "hd (butlast ?parts) \<noteq> []"
    by (auto simp: numbering_ok_def list_all_iff)
  with b show ?thesis
    unfolding p by (rule join_nonempty)
qed

lemma numbering_ok_parent_ok:
  assumes "numbering_ok s" "parent_of s = Some p"
  shows "numbering_ok p"
proof -
  from parent_of_segments(1) [OF assms(2)] have "set (seg p) \<subseteq> set (seg s)"
    by (auto dest: in_set_butlastD)
  with assms(1) show ?thesis
    by (auto simp: numbering_ok_def list_all_iff)
qed

text \<open>
  A dot-separated decimal numbering is the name of no property of \<open>Object.prototype\<close>
  and of no property of a node object.
\<close>

lemma inherited_names_not_numberings:
  "\<not> numbering_ok ''constructor''" "\<not> numbering_ok ''hasOwnProperty''"
  "\<not> numbering_ok ''isPrototypeOf''" "\<not> numbering_ok ''propertyIsEnumerable''"
  "\<not> numbering_ok ''toLocaleString''" "\<not> numbering_ok ''toString''"
  "\<not> numbering_ok ''valueOf''" "\<not> numbering_ok ''__proto__''"
  "\<not> numbering_ok ''__defineGetter__''" "\<not> numbering_ok ''__defineSetter__''"
  "\<not> numbering_ok ''__lookupGetter__''" "\<not> numbering_ok ''__lookupSetter__''"
  "\<not> numbering_ok ''id''" "\<not> numbering_ok ''parentId''" "\<not> numbering_ok ''score''"
  "\<not> numbering_ok ''bodySnippet''" "\<not> numbering_ok ''fullNumbering''"
  by code_simp+

lemma numbering_ok_not_inherited:
  assumes "numbering_ok p"
  shows "\<not> inherited_truthy pr p"
proof -
  have "p \<notin> set object_prototype_keys"
    using assms inherited_names_not_numberings by (auto simp: object_prototype_keys_def)
  moreover have "p \<noteq> ''id''" "p \<noteq> ''parentId''" "p \<noteq> ''score''" "p \<noteq> ''bodySnippet''"
    "p \<noteq> ''fullNumbering''"
    using assms inherited_names_not_numberings by blast+
  ultimately show ?thesis
    by (simp add: inherited_truthy_def split: option.splits)
qed

lemma keys_numbering:
  assumes "\<forall>r\<in>set data. numbering_ok (numbering r)"
  shows "set (map fst (own_properties (buildNodeDictionary data))) = numbering ` set data"
proof -
  have "''__proto__'' \<notin> numbering ` set data"
    using assms inherited_names_not_numberings(8) by auto
  then have "numbering ` set data - {''__proto__''} = numbering ` set data"
    by simp
  with buildNodeDictionary_ok(2) [of data] show ?thesis
    by (metis set_map)
qed

lemma no_inherited_parent:
  assumes "\<forall>r\<in>set data. numbering_ok (numbering r)"
  shows "\<forall>k\<in>set (map fst (own_properties (buildNodeDictionary data))). \<forall>p. attach_to k = Some p \<longrightarrow>
           p \<in> set (map fst (own_properties (buildNodeDictionary data)))
           \<or> \<not> inherited_truthy (prototype (buildNodeDictionary data)) p"
  unfolding keys_numbering [OF assms]
proof (intro ballI allI impI)
  fix k p assume k: "k \<in> numbering ` set data" and a: "attach_to k = Some p"
  from k assms have "numbering_ok k" by auto
  moreover from a have "parent_of k = Some p"
    by (auto simp: attach_to_def split: option.splits if_splits)
  ultimately have "numbering_ok p"
    by (rule numbering_ok_parent_ok)
  then have "\<not> inherited_truthy (prototype (buildNodeDictionary data)) p"
    by (rule numbering_ok_not_inherited)
  then show "p \<in> numbering ` set data \<or> \<not> inherited_truthy (prototype (buildNodeDictionary data)) p" ..
qed

lemma rebuild_root:
  assumes "\<forall>r\<in>set data. numbering_ok (numbering r)"
  obtains ts where "root_trees (own_properties (buildNodeDictionary data)) = Some ts"
    and "rebuild data = Some (Inr (computeCounts (HTree None ts 0)))"
proof -
  have ok: "dict_ok (own_properties (buildNodeDictionary data))"
    by (rule buildNodeDictionary_ok)
  from root_trees_exist [OF ok] obtain ts where
    ts: "root_trees (own_properties (buildNodeDictionary data)) = Some ts"
    by blast
  from buildHierarchy_root [OF ok no_inherited_parent [OF assms] ts]
  have "rebuild data = Some (Inr (computeCounts (HTree None ts 0)))"
    by (simp add: rebuild_def)
  with ts that show ?thesis by blast
qed

text \<open>The numberings that the Flattener produces are dot-separated decimal numbers.\<close>

lemma numberingString_ok:
  assumes "q \<noteq> []"
  shows "numbering_ok (numberingString q)"
proof -
  have "p \<noteq> [] \<and> list_all (\<lambda>c. digit_value c < 10) p" if "p \<in> set (map decimal q)" for p
  proof -
    from that obtain n where p: "p = decimal n" by auto
    have "\<forall>c\<in>set (decimal n). digit_value c < 10"
      using decimal_takeWhile [of n] by (simp only: takeWhile_eq_all_conv)
    then show ?thesis
      unfolding p by (simp add: decimal_nonempty list_all_iff)
  qed
  then show ?thesis
    unfolding numbering_ok_def split_numberingString [OF assms] list_all_iff by blast
qed

lemma flattener_numbering_ok:
  assumes "rows = buildTableData comments [] []"
  shows "\<forall>r\<in>set rows. numbering_ok (numbering r)"
proof
  fix r assume "r \<in> set rows"
  then have "numbering r \<in> set (map numbering rows)" by simp
  also have "map numbering rows = map numberingString (preorder_paths [] 0 comments)"
    using assms by (simp add: flatten_preorder numbering_preorder del: buildTableData.simps)
  finally obtain q where q: "q \<in> set (preorder_paths [] 0 comments)" "numbering r = numberingString q"
    by auto
  from paths_shape [OF q(1)] have "q \<noteq> []" by auto
  then show "numbering_ok (numbering r)"
    unfolding q(2) by (rule numberingString_ok)
qed

lemma root_node_ids: "node_ids (computeCounts (HTree None ts 0)) = concat (map node_ids ts)"
  using computeCounts_node_ids [of "HTree None ts 0"] by (simp del: computeCounts.simps)

lemma root_subtrees:
  "subtrees (computeCounts (HTree None ts 0))
     = computeCounts (HTree None ts 0) # map computeCounts (concat (map subtrees ts))"
  using computeCounts_subtrees [of "HTree None ts 0"] by (simp del: computeCounts.simps)

lemma map_id_computeCounts: "map t_id (map computeCounts xs) = map t_id xs"
  by (induction xs) (simp_all add: computeCounts_id)

lemma flattened_tree:
  assumes rows: "rows = buildTableData comments [] []"
    and ts: "root_trees (own_properties (buildNodeDictionary rows)) = Some ts"
  shows "mset (concat (map node_ids ts)) = mset (map numbering rows)"
    and "\<forall>r\<in>set rows. length (split CHR ''.'' (numbering r)) = 1 \<longrightarrow>
           Some (numbering r) \<in> set (map t_id ts)"
    and "\<forall>r\<in>set rows. length (split CHR ''.'' (numbering r)) \<noteq> 1 \<longrightarrow>
           (\<exists>x\<in>set (concat (map subtrees ts)).
               t_id x = Some (join ''.'' (butlast (split CHR ''.'' (numbering r))))
               \<and> Some (numbering r) \<in> set (map t_id (t_children x)))"
proof -
  let ?dict = "own_properties (buildNodeDictionary rows)"
  have ok: "dict_ok ?dict" by (rule buildNodeDictionary_ok)
  note keys_numbering = keys_numbering [OF flattener_numbering_ok [OF rows]]
  note F = flattener_table [OF rows]
  have closed: "\<forall>c\<in>set (map fst ?dict). \<forall>p. attach_to c = Some p \<longrightarrow> p \<in> set (map fst ?dict)"
    using F(2) by (simp only: keys_numbering)
  have ne: "\<forall>c\<in>set (map fst ?dict). parent_of c \<noteq> Some []"
    using F(3) by (simp only: keys_numbering)
  have d: "distinct (concat (map node_ids ts))"
    by (rule root_ids_distinct [OF ok ts ne])
  have "set (concat (map node_ids ts)) = set (map fst ?dict)"
    using root_ids_keys [OF ok ts] root_ids_complete [OF ok ts closed] by blast
  then have s: "set (concat (map node_ids ts)) = set (map numbering rows)"
    using keys_numbering by simp
  from d F(1) s show "mset (concat (map node_ids ts)) = mset (map numbering rows)"
    by (simp only: set_eq_iff_mset_eq_distinct)
  show "\<forall>r\<in>set rows. length (split CHR ''.'' (numbering r)) = 1 \<longrightarrow>
           Some (numbering r) \<in> set (map t_id ts)"
  proof (intro ballI impI)
    fix r assume r: "r \<in> set rows" and l: "length (split CHR ''.'' (numbering r)) = 1"
    from l have "parent_of (numbering r) = None"
      by (simp add: parent_of_None)
    then have "attach_to (numbering r) = None"
      by (simp add: attach_to_def)
    moreover from r have "numbering r \<in> set (map fst ?dict)"
      by (simp only: keys_numbering) simp
    ultimately have "numbering r \<in> set (root_children ?dict)"
      by (simp add: root_children_def)
    then show "Some (numbering r) \<in> set (map t_id ts)"
      by (simp only: root_children_ids [OF ok ts]) simp
  qed
  show "\<forall>r\<in>set rows. length (split CHR ''.'' (numbering r)) \<noteq> 1 \<longrightarrow>
           (\<exists>x\<in>set (concat (map subtrees ts)).
               t_id x = Some (join ''.'' (butlast (split CHR ''.'' (numbering r))))
               \<and> Some (numbering r) \<in> set (map t_id (t_children x)))"
  proof (intro ballI impI)
    fix r assume r: "r \<in> set rows" and l: "length (split CHR ''.'' (numbering r)) \<noteq> 1"
    let ?p = "join ''.'' (butlast (split CHR ''.'' (numbering r)))"
    from r have k: "numbering r \<in> set (map fst ?dict)"
      by (simp only: keys_numbering) simp
    from l split_nonempty [of "CHR ''.''" "numbering r"]
    have "1 < length (split CHR ''.'' (numbering r))"
      by (cases "split CHR ''.'' (numbering r)") auto
    then have po: "parent_of (numbering r) = Some ?p"
      by (simp add: parent_of_def)
    with ne k have "?p \<noteq> []" by auto
    with po have a: "attach_to (numbering r) = Some ?p"
      by (simp add: attach_to_def)
    with closed k have pk: "?p \<in> set (map fst ?dict)" by blast
    from root_ids_complete [OF ok ts closed pk]
    have "Some ?p \<in> set (map Some (concat (map node_ids ts)))" by simp
    then have "Some ?p \<in> set (map t_id (concat (map subtrees ts)))"
      by (simp only: root_subtrees_ids [OF ok ts])
    then obtain x where x0: "Some ?p = t_id x" "x \<in> set (concat (map subtrees ts))"
      unfolding set_map by (rule imageE)
    then have x: "x \<in> set (concat (map subtrees ts))" "t_id x = Some ?p"
      by simp_all
    from root_subtree_children [OF ok ts x]
    have "map t_id (t_children x) = map Some (filter (\<lambda>c. attach_to c = Some ?p) (map fst ?dict))" .
    moreover have "numbering r \<in> set (filter (\<lambda>c. attach_to c = Some ?p) (map fst ?dict))"
      using a k by simp
    ultimately have "Some (numbering r) \<in> set (map t_id (t_children x))"
      by simp
    with x show "\<exists>x\<in>set (concat (map subtrees ts)).
               t_id x = Some ?p \<and> Some (numbering r) \<in> set (map t_id (t_children x))"
      by blast
  qed
qed

lemma orphan_omitted:
  assumes wf: "\<forall>r\<in>set data. numbering_ok (numbering r)"
    and ts: "root_trees (own_properties (buildNodeDictionary data)) = Some ts"
    and r: "numbering_ok (numbering r)" "parent_of (numbering r) = Some p"
      "p \<notin> numbering ` set data"
  shows "numbering r \<notin> set (concat (map node_ids ts))"
proof
  let ?dict = "own_properties (buildNodeDictionary data)"
  have ok: "dict_ok ?dict" by (rule buildNodeDictionary_ok)
  assume "numbering r \<in> set (concat (map node_ids ts))"
  from root_ids_origin [OF ok ts this]
  have "attach_to (numbering r) = None \<or> (\<exists>q\<in>numbering ` set data. attach_to (numbering r) = Some q)"
    by (simp only: keys_numbering [OF wf])
  moreover have "attach_to (numbering r) = Some p"
    using numbering_ok_parent [OF r(1,2)] r(2) by (simp add: attach_to_def)
  ultimately show False using r(3) by auto
qed

lemma leaves_le_size: "leaves t \<le> tree_size t"
proof (induction t)
  case (HTree v ts c)
  have "sum_list (map leaves ts) \<le> sum_list (map tree_size ts)"
    by (rule sum_list_mono) (rule HTree)
  then show ?case by simp
qed

lemma leaves_pos: "0 < leaves t"
proof (induction t)
  case (HTree v ts c)
  show ?case
  proof (cases ts)
    case Nil
    then show ?thesis by simp
  next
    case (Cons a as)
    with HTree [of a] show ?thesis by simp
  qed
qed

lemma leaves_lt_size: "t_children t \<noteq> [] \<Longrightarrow> leaves t < tree_size t"
proof (cases t)
  case (HTree v ts c)
  assume "t_children t \<noteq> []"
  moreover have "sum_list (map leaves ts) \<le> sum_list (map tree_size ts)"
    by (rule sum_list_mono) (rule leaves_le_size)
  ultimately show ?thesis using HTree by simp
qed

lemma scenario_counts:
  "map_option (map_sum id (\<lambda>t. map t_count (subtrees t))) (rebuild (buildTableData scenario [] []))
     = Some (Inr [2, 2, 1, 1, 1])"
  by code_simp

lemma scenario_sizes:
  "map_option (map_sum id (\<lambda>t. map tree_size (subtrees t))) (rebuild (buildTableData scenario [] []))
     = Some (Inr [5, 4, 1, 2, 1])"
  by code_simp

lemma scenario_ids:
  "map_option (map_sum id (\<lambda>t. map t_id (subtrees t))) (rebuild (buildTableData scenario [] []))
     = Some (Inr [None, Some ''1'', Some ''1.1'', Some ''1.2'', Some ''1.2.1''])"
  by code_simp

text \<open>
  The Rebuilder ends for every sequence of records: it throws in the second loop, or it
  returns a tree (the depth bound is never hit).
\<close>

lemma link_fold_cases:
  assumes "\<forall>kv\<in>set xs. n_parentId (snd kv) = parent_of (fst kv)"
  shows "forEach_link pr (rc, d) xs = Inl TypeError
     \<or> forEach_link pr (rc, d) xs =
           Inr (rc @ filter (\<lambda>c. attach_to c = None) (map fst xs), add_children (map fst xs) d)"
  using assms
proof (induction xs arbitrary: rc d)
  case Nil
  then show ?case by (simp add: add_children_Nil)
next
  case (Cons x xs)
  obtain k v where x: "x = (k, v)" by (cases x)
  from Cons.prems x have pv: "n_parentId v = parent_of k" by simp
  from Cons.prems have rest: "\<forall>kv\<in>set xs. n_parentId (snd kv) = parent_of (fst kv)" by simp
  show ?case
  proof (cases "attach_to k")
    case None
    then have "link_node pr (rc, d) x = Inr (rc @ [k], d)"
      using link_node_cases [OF pv] x by simp
    moreover have "add_children (k # map fst xs) d = add_children (map fst xs) d"
      using None by (intro add_children_skip) simp
    ultimately show ?thesis
      using Cons.IH [OF rest, of "rc @ [k]" d] None x by simp
  next
    case (Some pid)
    show ?thesis
    proof (cases "pid \<in> fst ` set d")
      case True
      then have "link_node pr (rc, d) x = Inr (rc, push_child pid k d)"
        using link_node_cases [OF pv] x Some by simp
      then show ?thesis
        using Cons.IH [OF rest, of rc "push_child pid k d"] Some x
        by (simp add: add_children_push)
    next
      case False
      show ?thesis
      proof (cases "inherited_truthy pr pid")
        case True
        with False have "link_node pr (rc, d) x = Inl TypeError"
          using link_node_cases [OF pv] x Some by simp
        then show ?thesis by simp
      next
        case n: False
        with False have "link_node pr (rc, d) x = Inr (rc, d)"
          using link_node_cases [OF pv] x Some by simp
        moreover have "add_children (k # map fst xs) d = add_children (map fst xs) d"
          using False Some by (intro add_children_skip) force
        ultimately show ?thesis
          using Cons.IH [OF rest, of rc d] Some x by simp
      qed
    qed
  qed
qed

lemma buildHierarchyFromDict_ends:
  assumes "dict_ok (own_properties dict)"
  shows "buildHierarchyFromDict dict = Some (Inl TypeError)
     \<or> (\<exists>t. buildHierarchyFromDict dict = Some (Inr t))"
proof -
  let ?dict = "own_properties dict"
  let ?d1 = "map (\<lambda>(k, v). (k, v\<lparr> n_children := [], n_count := 1 \<rparr>)) ?dict"
  have k: "map fst ?d1 = map fst ?dict"
    by (induction ?dict) auto
  have "\<forall>kv\<in>set ?d1. n_parentId (snd kv) = parent_of (fst kv)"
    using assms by (auto simp: dict_ok_def list_all_iff)
  from link_fold_cases [OF this, of "prototype dict" "[]" ?d1]
  consider "forEach_link (prototype dict) ([], ?d1) ?d1 = Inl TypeError"
    | "forEach_link (prototype dict) ([], ?d1) ?d1
         = Inr (filter (\<lambda>c. attach_to c = None) (map fst ?dict), add_children (map fst ?dict) ?d1)"
    unfolding k by auto
  then show ?thesis
  proof cases
    case 1
    then show ?thesis
      by (simp add: buildHierarchyFromDict_def)
  next
    case 2
    have "add_children (map fst ?dict) ?d1 = linked_dict ?dict"
      by (simp add: add_children_def linked_dict_def case_prod_beta)
    with 2 have l: "forEach_link (prototype dict) ([], ?d1) ?d1 = Inr (root_children ?dict, linked_dict ?dict)"
      by (simp add: root_children_def)
    from root_trees_exist [OF assms] obtain ts where "root_trees ?dict = Some ts"
      by blast
    then have "buildHierarchyFromDict dict = Some (Inr (computeCounts (HTree None ts 0)))"
      unfolding buildHierarchyFromDict_def Let_def l root_trees_def by simp
    then show ?thesis by blast
  qed
qed

lemma rebuild_ends:
  "rebuild data = Some (Inl TypeError) \<or> (\<exists>t. rebuild data = Some (Inr t))"
  unfolding rebuild_def by (rule buildHierarchyFromDict_ends) (rule buildNodeDictionary_ok)

text \<open>
  What \<open>computeCounts\<close> computes, in every tree: the count of a node is the number of
  nodes without children in its subtree, so it is below the number of nodes of the
  subtree for every node that has children.
\<close>

lemma computeCounts_counts_leaves:
  assumes "x \<in> set (subtrees (computeCounts t))"
  shows "t_count x = leaves x" and "t_children x \<noteq> [] \<Longrightarrow> t_count x < tree_size x"
proof -
  from assms have "x \<in> computeCounts ` set (subtrees t)"
    by (simp only: computeCounts_subtrees set_map)
  then obtain y where x: "x = computeCounts y"
    by (rule imageE)
  show c: "t_count x = leaves x"
    unfolding x by (simp add: computeCounts_count leaves_computeCounts)
  show "t_count x < tree_size x" if "t_children x \<noteq> []"
    using leaves_lt_size [OF that] c by simp
qed

text \<open>
  C4 does not hold of the code. The comment of \<open>computeCounts\<close> says that it sums
  the total number of descendant nodes into \<open>node.count\<close>, and
  \<open>buildHierarchyFromDict\<close> calls it to compute total descendant counts; but the
  function gives a node without children the count 1 and every other node the sum of
  the counts of its children, without the node itself. In the tree rebuilt from the
  scenario (root, 1, 1.1, 1.2, 1.2.1) the counts are 2, 2, 1, 1, 1, while the subtrees
  have 5, 4, 1, 2 and 1 nodes: the count of the comment 1 is 2, not the 4 nodes of its
  subtree, nor its 3 descendants.
\<close>

theorem count_not_subtree_size:
  "map_option (map_sum id (\<lambda>t. map t_id (subtrees t))) (rebuild (buildTableData scenario [] []))
     = Some (Inr [None, Some ''1'', Some ''1.1'', Some ''1.2'', Some ''1.2.1''])
   \<and> map_option (map_sum id (\<lambda>t. map t_count (subtrees t))) (rebuild (buildTableData scenario [] []))
     = Some (Inr [2, 2, 1, 1, 1])
   \<and> map_option (map_sum id (\<lambda>t. map tree_size (subtrees t))) (rebuild (buildTableData scenario [] []))
     = Some (Inr [5, 4, 1, 2, 1])"
  using scenario_ids scenario_counts scenario_sizes by simp

text \<open>
  A parent id that is the name of an inherited property, and not the numbering of a
  record, makes the second loop throw; a dot-separated decimal numbering never has such
  a parent id.
\<close>

lemma rebuild_inherited_parent:
  "rebuild [(make_row [1] plain_comment)\<lparr> numbering := ''toString.1'' \<rparr>] = Some (Inl TypeError)"
  "rebuild [(make_row [1] plain_comment)\<lparr> numbering := ''__proto__.1'' \<rparr>] = Some (Inl TypeError)"
  "rebuild [(make_row [1] plain_comment)\<lparr> numbering := ''__proto__'' \<rparr>,
            (make_row [1] plain_comment)\<lparr> numbering := ''id.1'' \<rparr>] = Some (Inl TypeError)"
  "map_option (map_sum id node_ids)
     (rebuild [(make_row [1] plain_comment)\<lparr> numbering := ''toString'' \<rparr>,
               (make_row [1] plain_comment)\<lparr> numbering := ''toString.1'' \<rparr>])
     = Some (Inr [''toString'', ''toString.1''])"
  by code_simp+

text \<open>
  C2. For every flat sequence produced by the Flattener the Rebuilder returns a tree
  whose root is the synthetic root and whose other nodes are exactly one per record
  (their ids are the numberings of the records, each once); every record whose numbering
  has one segment is a child of the root, and every other record is a child of the node
  whose id is its numbering without the last segment. For an arbitrary sequence of
  records with dot-separated decimal numberings the Rebuilder also returns a tree, and
  a record whose derived parent id is the numbering of no record is not a node of it.
\<close>

theorem rebuild_structure:
  "(rows = buildTableData comments [] [] \<longrightarrow>
      (\<exists>t. rebuild rows = Some (Inr t)
         \<and> t_node t = None
         \<and> mset (node_ids t) = mset (map numbering rows)
         \<and> map t_id (subtrees t) = None # map Some (node_ids t)
         \<and> length (subtrees t) = Suc (length rows)
         \<and> (\<forall>r\<in>set rows. length (split CHR ''.'' (numbering r)) = 1 \<longrightarrow>
               Some (numbering r) \<in> set (map t_id (t_children t)))
         \<and> (\<forall>r\<in>set rows. length (split CHR ''.'' (numbering r)) \<noteq> 1 \<longrightarrow>
               (\<exists>x\<in>set (subtrees t).
                   t_id x = Some (join ''.'' (butlast (split CHR ''.'' (numbering r))))
                   \<and> Some (numbering r) \<in> set (map t_id (t_children x))))))
   \<and> ((\<forall>r\<in>set data. numbering_ok (numbering r)) \<longrightarrow>
      (\<exists>t. rebuild data = Some (Inr t)
         \<and> (\<forall>r\<in>set data. \<forall>p. parent_of (numbering r) = Some p \<and> p \<notin> numbering ` set data
               \<longrightarrow> numbering r \<notin> set (node_ids t))))"
proof (intro conjI impI)
  assume rows: "rows = buildTableData comments [] []"
  obtain ts where ts: "root_trees (own_properties (buildNodeDictionary rows)) = Some ts"
    and r: "rebuild rows = Some (Inr (computeCounts (HTree None ts 0)))"
    by (rule rebuild_root [OF flattener_numbering_ok [OF rows]])
  let ?t = "computeCounts (HTree None ts 0)"
  have ok: "dict_ok (own_properties (buildNodeDictionary rows))" by (rule buildNodeDictionary_ok)
  note F = flattened_tree [OF rows ts]
  have 1: "t_node ?t = None"
    by (simp add: computeCounts_node)
  have 2: "mset (node_ids ?t) = mset (map numbering rows)"
    unfolding root_node_ids by (rule F(1))
  have a: "map t_id (map computeCounts (concat (map subtrees ts))) = map Some (concat (map node_ids ts))"
    by (simp only: map_id_computeCounts root_subtrees_ids [OF ok ts])
  have b: "t_id ?t = None"
    using 1 by (simp add: t_id_def del: computeCounts.simps)
  have 3: "map t_id (subtrees ?t) = None # map Some (node_ids ?t)"
    unfolding root_node_ids root_subtrees
    using a b by (simp del: map_map computeCounts.simps)
  have "length (node_ids ?t) = length (map numbering rows)"
    using 2 by (metis size_mset)
  with 3 have 4: "length (subtrees ?t) = Suc (length rows)"
    by (metis length_Cons length_map)
  have c: "map t_id (t_children ?t) = map t_id ts"
    by (simp only: computeCounts_children htree.sel map_id_computeCounts)
  have 5: "\<forall>r\<in>set rows. length (split CHR ''.'' (numbering r)) = 1 \<longrightarrow>
               Some (numbering r) \<in> set (map t_id (t_children ?t))"
    unfolding c by (rule F(2))
  have 6: "\<forall>r\<in>set rows. length (split CHR ''.'' (numbering r)) \<noteq> 1 \<longrightarrow>
               (\<exists>x\<in>set (subtrees ?t).
                   t_id x = Some (join ''.'' (butlast (split CHR ''.'' (numbering r))))
                   \<and> Some (numbering r) \<in> set (map t_id (t_children x)))"
  proof (intro ballI impI)
    fix r assume "r \<in> set rows" "length (split CHR ''.'' (numbering r)) \<noteq> 1"
    with F(3) obtain x where x: "x \<in> set (concat (map subtrees ts))"
      "t_id x = Some (join ''.'' (butlast (split CHR ''.'' (numbering r))))"
      "Some (numbering r) \<in> set (map t_id (t_children x))"
      by blast
    have "computeCounts x \<in> set (subtrees ?t)"
      unfolding root_subtrees using x(1) by simp
    moreover have "t_id (computeCounts x) = Some (join ''.'' (butlast (split CHR ''.'' (numbering r))))"
      using x(2) by (simp add: computeCounts_id)
    moreover have "Some (numbering r) \<in> set (map t_id (t_children (computeCounts x)))"
      using x(3) by (simp only: computeCounts_children map_id_computeCounts)
    ultimately show "\<exists>x\<in>set (subtrees ?t).
                   t_id x = Some (join ''.'' (butlast (split CHR ''.'' (numbering r))))
                   \<and> Some (numbering r) \<in> set (map t_id (t_children x))"
      by blast
  qed
  show "\<exists>t. rebuild rows = Some (Inr t)
         \<and> t_node t = None
         \<and> mset (node_ids t) = mset (map numbering rows)
         \<and> map t_id (subtrees t) = None # map Some (node_ids t)
         \<and> length (subtrees t) = Suc (length rows)
         \<and> (\<forall>r\<in>set rows. length (split CHR ''.'' (numbering r)) = 1 \<longrightarrow>
               Some (numbering r) \<in> set (map t_id (t_children t)))
         \<and> (\<forall>r\<in>set rows. length (split CHR ''.'' (numbering r)) \<noteq> 1 \<longrightarrow>
               (\<exists>x\<in>set (subtrees t).
                   t_id x = Some (join ''.'' (butlast (split CHR ''.'' (numbering r))))
                   \<and> Some (numbering r) \<in> set (map t_id (t_children x))))"
    by (intro exI [of _ ?t] conjI) (rule r 1 2 3 4 5 6)+
next
  assume wf: "\<forall>r\<in>set data. numbering_ok (numbering r)"
  obtain ts where ts: "root_trees (own_properties (buildNodeDictionary data)) = Some ts"
    and r: "rebuild data = Some (Inr (computeCounts (HTree None ts 0)))"
    by (rule rebuild_root [OF wf])
  have "\<forall>r\<in>set data. \<forall>p. parent_of (numbering r) = Some p \<and> p \<notin> numbering ` set data
               \<longrightarrow> numbering r \<notin> set (node_ids (computeCounts (HTree None ts 0)))"
    unfolding root_node_ids using orphan_omitted [OF wf ts] wf by blast
  then show "\<exists>t. rebuild data = Some (Inr t)
         \<and> (\<forall>r\<in>set data. \<forall>p. parent_of (numbering r) = Some p \<and> p \<notin> numbering ` set data
               \<longrightarrow> numbering r \<notin> set (node_ids t))"
    by (intro exI [of _ "computeCounts (HTree None ts 0)"] conjI) (rule r, assumption)
qed

theorem rebuild_structure_witness:
  "(\<exists>t. rebuild (buildTableData scenario [] []) = Some (Inr t)
      \<and> map t_id (subtrees t) = [None, Some ''1'', Some ''1.1'', Some ''1.2'', Some ''1.2.1'']
      \<and> mset (node_ids t) = mset [''1'', ''1.1'', ''1.2'', ''1.2.1'']
      \<and> length (subtrees t) = 5)
   \<and> (\<exists>t. rebuild [make_row [1, 1] plain_comment] = Some (Inr t) \<and> ''1.1'' \<notin> set (node_ids t))"
proof -
  note T = rebuild_structure [of "buildTableData scenario [] []" scenario "[make_row [1, 1] plain_comment]"]
  from T obtain t where t: "rebuild (buildTableData scenario [] []) = Some (Inr t)"
    and m: "mset (node_ids t) = mset (map numbering (buildTableData scenario [] []))"
    and l: "length (subtrees t) = Suc (length (buildTableData scenario [] []))"
    by blast
  from scenario_ids t have i: "map t_id (subtrees t) = [None, Some ''1'', Some ''1.1'', Some ''1.2'', Some ''1.2.1'']"
    by simp
  from m have m': "mset (node_ids t) = mset [''1'', ''1.1'', ''1.2'', ''1.2.1'']"
    by (simp only: scenario_numbering)
  from l have "length (subtrees t) = Suc (length (map numbering (buildTableData scenario [] [])))"
    by simp
  then have l': "length (subtrees t) = 5"
    unfolding scenario_numbering by simp
  have n: "numbering (make_row [1, 1] plain_comment) = ''1.1''"
    by (simp add: make_row_def numberingString_def decimal_small)
  have w: "\<forall>r\<in>set [make_row [1, 1] plain_comment]. numbering_ok (numbering r)"
    unfolding n list.set ball_simps by code_simp
  have p: "parent_of ''1.1'' = Some ''1''"
    by code_simp
  from T w obtain t' where t': "rebuild [make_row [1, 1] plain_comment] = Some (Inr t')"
    and o: "\<forall>r\<in>set [make_row [1, 1] plain_comment]. \<forall>p. parent_of (numbering r) = Some p
              \<and> p \<notin> numbering ` set [make_row [1, 1] plain_comment] \<longrightarrow> numbering r \<notin> set (node_ids t')"
    by blast
  from o n p have o': "''1.1'' \<notin> set (node_ids t')"
    by simp
  have A: "\<exists>t. rebuild (buildTableData scenario [] []) = Some (Inr t)
      \<and> map t_id (subtrees t) = [None, Some ''1'', Some ''1.1'', Some ''1.2'', Some ''1.2.1'']
      \<and> mset (node_ids t) = mset [''1'', ''1.1'', ''1.2'', ''1.2.1'']
      \<and> length (subtrees t) = 5"
  proof (intro exI conjI)
    show "rebuild (buildTableData scenario [] []) = Some (Inr t)" by (rule t)
    show "map t_id (subtrees t) = [None, Some ''1'', Some ''1.1'', Some ''1.2'', Some ''1.2.1'']"
      by (rule i)
    show "mset (node_ids t) = mset [''1'', ''1.1'', ''1.2'', ''1.2.1'']" by (rule m')
    show "length (subtrees t) = 5" by (rule l')
  qed
  have B: "\<exists>t. rebuild [make_row [1, 1] plain_comment] = Some (Inr t) \<and> ''1.1'' \<notin> set (node_ids t)"
  proof (intro exI conjI)
    show "rebuild [make_row [1, 1] plain_comment] = Some (Inr t')" by (rule t')
    show "''1.1'' \<notin> set (node_ids t')" by (rule o')
  qed
  from A B show ?thesis ..
qed

end
